theory Spec2Isabelle
  imports Main
begin

section \<open>Text primitives of the harness\<close>

text \<open>
  The harness (\<^verbatim>\<open>src/testers/webserv_tester.py\<close>) works on Python \<^verbatim>\<open>str\<close> values.
  They are modelled as \<^typ>\<open>string\<close>; a \<^typ>\<open>char\<close> stands for a code point below 256.
  On that range the regular expression class \<^verbatim>\<open>\s\<close> and \<^verbatim>\<open>str.split()\<close> agree on the
  twelve white-space characters of \<open>is_space\<close>, and \<^verbatim>\<open>\d\<close> is the ten ASCII digits.
\<close>

definition is_space :: "char \<Rightarrow> bool" where
  "is_space c \<longleftrightarrow>
     c \<in> set [CHR 0x09, CHR 0x0A, CHR 0x0B, CHR 0x0C, CHR 0x0D,
               CHR 0x1C, CHR 0x1D, CHR 0x1E, CHR 0x1F, CHR 0x20, CHR 0x85, CHR 0xA0]"

definition is_digit :: "char \<Rightarrow> bool" where
  "is_digit c \<longleftrightarrow> c \<in> set ''0123456789''"

text \<open>The value of a string of decimal digits (Python integers are unbounded).\<close>

definition digit_val :: "char \<Rightarrow> int" where
  "digit_val c = int (of_char c) - 48"

definition int_of_digits :: "string \<Rightarrow> int" where
  "int_of_digits ds = foldl (\<lambda>a c. 10 * a + digit_val c) 0 ds"

text \<open>
  The interpreter limits the conversions between integers and decimal strings: by default
  to 4300 digits (\<^verbatim>\<open>sys.get_int_max_str_digits()\<close>), and the harness does not change the
  default. Beyond the limit both directions raise \<^verbatim>\<open>ValueError\<close>.
\<close>

definition max_str_digits :: nat where
  "max_str_digits = 4300"

text \<open>The decimal form of an integer, with a sign when negative.\<close>

definition digit_char :: "nat \<Rightarrow> char" where
  "digit_char d = ''0123456789'' ! d"

fun str_nat :: "nat \<Rightarrow> string" where
  "str_nat n =
     (if n < 10 then [digit_char n]
      else str_nat (n div 10) @ [digit_char (n mod 10)])"

declare str_nat.simps [simp del]

definition str_int :: "int \<Rightarrow> string" where
  "str_int i = (if i < 0 then CHR ''-'' # str_nat (nat (- i)) else str_nat (nat i))"

text \<open>
  \<^verbatim>\<open>int(port)\<close> on a string of decimal digits: the digits are counted, leading zeros
  included. \<open>Inl\<close> carries the message of the \<^verbatim>\<open>ValueError\<close>.
\<close>

definition py_int :: "string \<Rightarrow> string + int" where
  "py_int ds =
     (if max_str_digits < length ds
      then Inl (''Exceeds the limit (4300 digits) for integer string conversion: value has ''
                 @ str_nat (length ds)
                 @ '' digits; use sys.set_int_max_str_digits() to increase the limit'')
      else Inr (int_of_digits ds))"

text \<open>The list comprehension of line 35: the first conversion that raises ends it.\<close>

fun py_ints :: "string list \<Rightarrow> string + int list" where
  "py_ints [] = Inr []"
| "py_ints (d # ds) =
     (case py_int d of
        Inl msg \<Rightarrow> Inl msg
      | Inr v \<Rightarrow> (case py_ints ds of Inl msg \<Rightarrow> Inl msg | Inr vs \<Rightarrow> Inr (v # vs)))"

text \<open>
  An integer in an f-string: \<open>fits i\<close> when its decimal form has no more digits than the
  limit; otherwise formatting raises \<^verbatim>\<open>ValueError\<close>. A port of a loaded descriptor came
  out of \<^verbatim>\<open>int\<close> on at most 4300 digits, so it fits, and the model formats
  \<^verbatim>\<open>{port}\<close> with \<open>str_int\<close>; the one integer the harness formats that need not fit is
  \<^verbatim>\<open>{port+1}\<close> (line 106).
\<close>

definition fits :: "int \<Rightarrow> bool" where
  "fits i \<longleftrightarrow> length (str_nat (nat \<bar>i\<bar>)) \<le> max_str_digits"

definition format_int :: "int \<Rightarrow> string + string" where
  "format_int i =
     (if fits i then Inr (str_int i)
      else Inl (''Exceeds the limit (4300 digits) for integer string conversion; ''
                 @ ''use sys.set_int_max_str_digits() to increase the limit''))"

text \<open>\<^verbatim>\<open>s.split()\<close> without a separator: the maximal runs of non-space characters.\<close>

fun split_ws :: "string \<Rightarrow> string \<Rightarrow> string list" where
  "split_ws cur [] = (if cur = [] then [] else [cur])"
| "split_ws cur (c # cs) =
     (if is_space c then (if cur = [] then split_ws [] cs else cur # split_ws [] cs)
      else split_ws (cur @ [c]) cs)"

definition py_split :: "string \<Rightarrow> string list" where
  "py_split s = split_ws [] s"

section \<open>The three regular expressions of \<^verbatim>\<open>parse_config\<close>\<close>

fun strip_prefix :: "string \<Rightarrow> string \<Rightarrow> string option" where
  "strip_prefix [] s = Some s"
| "strip_prefix (p # ps) [] = None"
| "strip_prefix (p # ps) (c # cs) = (if p = c then strip_prefix ps cs else None)"

text \<open>
  \<^verbatim>\<open>server\s*{\<close> anchored at the start of the text; the result is the text after the match.
\<close>

definition match_open :: "string \<Rightarrow> string option" where
  "match_open s =
     (case strip_prefix ''server'' s of
        None \<Rightarrow> None
      | Some r \<Rightarrow>
          (case dropWhile is_space r of
             [] \<Rightarrow> None
           | c # t \<Rightarrow> if c = CHR ''{'' then Some t else None))"

text \<open>
  \<^verbatim>\<open>listen\s+(\d+);\<close> anchored at the start: the captured digits and the text after the
  match. White space and digits are disjoint from what follows them in the pattern, so the
  greedy choice is the only one.
\<close>

definition match_listen :: "string \<Rightarrow> (string \<times> string) option" where
  "match_listen s =
     (case strip_prefix ''listen'' s of
        None \<Rightarrow> None
      | Some r \<Rightarrow>
          (if takeWhile is_space r = [] then None
           else
             (let r1 = dropWhile is_space r;
                  ds = takeWhile is_digit r1
              in if ds = [] then None
                 else
                   (case dropWhile is_digit r1 of
                      [] \<Rightarrow> None
                    | c # t \<Rightarrow> if c = CHR '';'' then Some (ds, t) else None))))"

text \<open>
  \<^verbatim>\<open>server_name\s+([^;]+);\<close> anchored at the start. The group is everything up to the
  next semicolon; when only white space stands before that semicolon, \<^verbatim>\<open>\s+\<close> gives its last
  character back to the group, which needs two white-space characters.
\<close>

definition match_server_name :: "string \<Rightarrow> (string \<times> string) option" where
  "match_server_name s =
     (case strip_prefix ''server_name'' s of
        None \<Rightarrow> None
      | Some r \<Rightarrow>
          (let ws = takeWhile is_space r;
               r1 = dropWhile is_space r;
               g = takeWhile (\<lambda>c. c \<noteq> CHR '';'') r1
           in if ws = [] then None
              else
                (case dropWhile (\<lambda>c. c \<noteq> CHR '';'') r1 of
                   [] \<Rightarrow> None
                 | c # t \<Rightarrow>
                     if g \<noteq> [] then Some (g, t)
                     else if 2 \<le> length ws then Some ([last ws], t)
                     else None)))"

text \<open>
  \<^verbatim>\<open>re.findall\<close> with one group: scan from the left, keep the group of every match and
  resume where the match ended (\<open>rest\<close> is the tail of \<open>cs\<close> of that length).
\<close>

fun findall :: "(string \<Rightarrow> (string \<times> string) option) \<Rightarrow> string \<Rightarrow> string list" where
  "findall m [] = []"
| "findall m (c # cs) =
     (case m (c # cs) of
        None \<Rightarrow> findall m cs
      | Some (g, rest) \<Rightarrow> g # findall m (drop (length cs - length rest) cs))"

text \<open>
  \<^verbatim>\<open>re.split\<close> with a pattern without groups: the pieces between the matches; \<open>acc\<close> is the
  piece being read.
\<close>

fun re_split :: "(string \<Rightarrow> string option) \<Rightarrow> string \<Rightarrow> string \<Rightarrow> string list" where
  "re_split m acc [] = [acc]"
| "re_split m acc (c # cs) =
     (case m (c # cs) of
        None \<Rightarrow> re_split m (acc @ [c]) cs
      | Some rest \<Rightarrow> acc # re_split m [] (drop (length cs - length rest) cs))"

section \<open>Descriptors and \<^verbatim>\<open>parse_config\<close>\<close>

record server =
  ports :: "int list"
  server_names :: "string list"

text \<open>
  The body of the loop over the blocks (lines 31 to 37); \<open>Inl\<close> is a \<^verbatim>\<open>ValueError\<close>
  of \<^verbatim>\<open>int\<close>, with its message.
\<close>

definition parse_block :: "string \<Rightarrow> string + server" where
  "parse_block block =
     (let ps = findall match_listen block;
          names = findall match_server_name block
      in case py_ints ps of
           Inl msg \<Rightarrow> Inl msg
         | Inr vs \<Rightarrow>
             Inr \<lparr>ports = vs,
                  server_names = (case names of [] \<Rightarrow> [] | n # _ \<Rightarrow> py_split n)\<rparr>)"

text \<open>The loop of line 31: the first block that raises ends it.\<close>

fun parse_blocks :: "string list \<Rightarrow> string + server list" where
  "parse_blocks [] = Inr []"
| "parse_blocks (block # blocks) =
     (case parse_block block of
        Inl msg \<Rightarrow> Inl msg
      | Inr server \<Rightarrow>
          (case parse_blocks blocks of
             Inl msg \<Rightarrow> Inl msg
           | Inr servers \<Rightarrow> Inr (server # servers)))"

definition parse_text :: "string \<Rightarrow> string + server list" where
  "parse_text content = parse_blocks (tl (re_split match_open [] content))"

section \<open>The world the harness acts on\<close>

text \<open>
  What the process does to its surroundings is kept in a \<open>world\<close>: the records handed to
  the logger, the command strings handed to \<^verbatim>\<open>subprocess.run\<close> with their timeouts (in call
  order), and the paths of the files the process itself opens for writing. What the
  surroundings answer is an \<open>env\<close>: the outcome of reading a path, and the outcome of a
  command, which may depend on the commands issued before it.
\<close>

datatype level = INFO | ERROR

datatype exn = TimeoutExpired | OtherError string

record completed =
  returncode :: int
  stdout :: string
  stderr :: string

datatype read_result = FileNotFound | ReadError string | Content string

record world =
  logged :: "(level \<times> string) list"
  executed :: "(string \<times> nat) list"
  written :: "string list"

record env =
  read_file :: "string \<Rightarrow> read_result"
  shell :: "(string \<times> nat) list \<Rightarrow> string \<Rightarrow> nat \<Rightarrow> exn + completed"

definition log_msg :: "level \<Rightarrow> string \<Rightarrow> world \<Rightarrow> world" where
  "log_msg lvl msg w = w\<lparr>logged := logged w @ [(lvl, msg)]\<rparr>"

fun join :: "string \<Rightarrow> string list \<Rightarrow> string" where
  "join sep [] = []"
| "join sep [x] = x"
| "join sep (x # y # ys) = x @ sep @ join sep (y # ys)"

definition repr_list :: "('a \<Rightarrow> string) \<Rightarrow> 'a list \<Rightarrow> string" where
  "repr_list f xs = ''['' @ join '', '' (map f xs) @ '']''"

text \<open>
  \<^verbatim>\<open>parse_config\<close> (lines 21 to 47). \<open>Inl n\<close> is \<^verbatim>\<open>sys.exit(n)\<close>; \<open>FileNotFound\<close> is
  the \<^verbatim>\<open>FileNotFoundError\<close> of \<^verbatim>\<open>open\<close>, \<open>ReadError e\<close> any other exception of
  \<^verbatim>\<open>open\<close> or \<^verbatim>\<open>read\<close> with its message. The handler of line 45 also catches the
  \<^verbatim>\<open>ValueError\<close> raised while the text is parsed.
\<close>

definition parse_config :: "env \<Rightarrow> string \<Rightarrow> world \<Rightarrow> (nat + server list) \<times> world" where
  "parse_config e config_path w =
     (case read_file e config_path of
        Content content \<Rightarrow>
          (case parse_text content of
             Inr servers \<Rightarrow>
               (Inr servers,
                log_msg INFO (''Found '' @ str_nat (length servers) @ '' server blocks with ports: ''
                               @ repr_list (repr_list str_int) (map ports servers)) w)
           | Inl msg \<Rightarrow> (Inl 1, log_msg ERROR (''Error parsing config file: '' @ msg) w))
      | FileNotFound \<Rightarrow> (Inl 1, log_msg ERROR (''Config file not found: '' @ config_path) w)
      | ReadError msg \<Rightarrow> (Inl 1, log_msg ERROR (''Error parsing config file: '' @ msg) w))"

section \<open>\<^verbatim>\<open>run_command\<close>\<close>

definition default_timeout :: nat where
  "default_timeout = 30"

text \<open>
  Lines 49 to 68. The call is recorded in \<open>executed\<close> whatever its outcome; the three
  \<^verbatim>\<open>return\<close> statements after a failure and the one after a success are the four branches.
\<close>

definition run_command :: "env \<Rightarrow> string \<Rightarrow> bool \<Rightarrow> nat \<Rightarrow> world \<Rightarrow> (bool \<times> string) \<times> world" where
  "run_command e command check timeout w =
     (let w1 = w\<lparr>executed := executed w @ [(command, timeout)]\<rparr>
      in case shell e (executed w) command timeout of
           Inr result \<Rightarrow>
             if check \<and> returncode result \<noteq> 0
             then ((False, stderr result),
                   log_msg ERROR (''Command failed: '' @ command @ [CHR 0x0A] @ stderr result) w1)
             else ((True, stdout result), w1)
         | Inl TimeoutExpired \<Rightarrow>
             ((False, ''Timeout''), log_msg ERROR (''Command timed out: '' @ command) w1)
         | Inl (OtherError msg) \<Rightarrow>
             ((False, msg), log_msg ERROR (''Error running command '' @ command @ '': '' @ msg) w1))"

text \<open>The line every scenario logs: its name, \<^verbatim>\<open>PASS\<close> or \<^verbatim>\<open>FAIL\<close>, and the output.\<close>

definition report :: "string \<Rightarrow> bool \<Rightarrow> string \<Rightarrow> string" where
  "report test_name success output =
     test_name @ '': '' @ (if success then ''PASS'' else ''FAIL'') @ [CHR 0x0A] @ output"

text \<open>
  The loop \<^verbatim>\<open>for cmd, test_name in tests\<close> shared by the basic, CGI, chunked and stress
  categories; \<open>check\<close> is the flag the category passes to \<^verbatim>\<open>run_command\<close>, the timeout is
  always the default.
\<close>

fun run_tests :: "env \<Rightarrow> bool \<Rightarrow> (string \<times> string) list \<Rightarrow> world \<Rightarrow> world" where
  "run_tests e check [] w = w"
| "run_tests e check ((cmd, test_name) # tests) w =
     (case run_command e cmd check default_timeout w of
        ((success, output), w1) \<Rightarrow>
          run_tests e check tests (log_msg INFO (report test_name success output) w1))"

text \<open>Lines 70 to 74.\<close>

definition prepare_cmds :: "string list" where
  \<open>prepare_cmds =
     [''head -c 100000 /dev/urandom > big.txt'',
      ''yes "this is a line of text" | head -n 5000 > test.txt'']\<close>

definition prepare_test_files :: "env \<Rightarrow> world \<Rightarrow> world" where
  "prepare_test_files e w =
     (let w1 = log_msg INFO ''Preparing test files...'' w;
          w2 = snd (run_command e (prepare_cmds ! 0) True default_timeout w1)
      in snd (run_command e (prepare_cmds ! 1) True default_timeout w2))"

text \<open>
  Lines 76 to 98. The body of \<^verbatim>\<open>create_read_err_script\<close> is one assignment of a string
  literal to a local variable: the literal runs from line 78 to line 94, and the four lines
  after it, which would open, write and \<^verbatim>\<open>chmod\<close> the file, are comments. The call
  changes nothing.
\<close>

definition create_read_err_script :: "world \<Rightarrow> world" where
  "create_read_err_script w = w"

section \<open>The scenario categories\<close>

text \<open>
  Lines 100 to 147: the \<^verbatim>\<open>tests\<close> table of \<^verbatim>\<open>run_basic_tests\<close>, then its loop.
  \<open>alt\<close> is the formatted \<^verbatim>\<open>{port+1}\<close> of line 106. When that formatting raises, the
  table is never built: the \<^verbatim>\<open>ValueError\<close> leaves \<^verbatim>\<open>run_basic_tests\<close>, which has no
  handler, after its first log record.
\<close>

definition basic_table :: "int \<Rightarrow> string \<Rightarrow> (string \<times> string) list" where
  \<open>basic_table port alt =
     [(''curl http://localhost:'' @ str_int port, ''Basic GET''),
      (''curl http://localhost:'' @ alt, ''Alternate Port GET''),
      (''curl -v -X POST http://localhost:'' @ str_int port @ ''/uploads ''
         @ ''-H "Content-Type: application/x-www-form-urlencoded" ''
         @ ''--data-binary "text=Hello%20world"'', ''POST Body Size''),
      (''curl http://localhost:'' @ str_int port @ ''/index.html'', ''Index HTML''),
      (''curl http://localhost:'' @ str_int port @ ''/cgi-bin/guestbook_display.php'', ''CGI Route''),
      (''curl -i http://localhost:'' @ str_int port @ ''/nonexistent_page.txt'', ''404 Error''),
      (''curl http://localhost:'' @ str_int port @ ''/uploads/'', ''Directory Index''),
      (''curl http://localhost:'' @ str_int port @ ''/cgi-bin/'', ''Method Restriction''),
      (''curl -X GET http://localhost:'' @ str_int port @ ''/index.html'', ''GET Request''),
      (''curl -X POST --data "test_data" http://localhost:'' @ str_int port @ ''/uploads'',
         ''POST Request''),
      (''curl -v -X DELETE "http://127.0.0.1:'' @ str_int port @ ''/delete?file=test.txt"'',
         ''DELETE Request''),
      (''curl -X INVALIDMETHOD http://localhost:'' @ str_int port @ ''/'', ''Invalid Method''),
      (''curl -X GET http://localhost:'' @ str_int port @ ''/uploads/'', ''Autoindex''),
      (''curl -i http://127.0.0.1:'' @ str_int port @ ''/redirect'', ''Redirection'')]\<close>

definition basic_tests :: "int \<Rightarrow> string + (string \<times> string) list" where
  "basic_tests port =
     (case format_int (port + 1) of
        Inl msg \<Rightarrow> Inl msg
      | Inr alt \<Rightarrow> Inr (basic_table port alt))"

text \<open>
  The first component of the result is the message of an exception that leaves the
  function, if one does; the world is the one reached by then.
\<close>

definition run_basic_tests :: "env \<Rightarrow> int \<Rightarrow> world \<Rightarrow> string option \<times> world" where
  "run_basic_tests e port w =
     (let w0 = log_msg INFO (''Running basic tests on port '' @ str_int port @ ''...'') w
      in case basic_tests port of
           Inl msg \<Rightarrow> (Some msg, w0)
         | Inr tests \<Rightarrow> (None, run_tests e True tests w0))"

text \<open>Lines 149 to 171.\<close>

definition cgi_tests :: "int \<Rightarrow> (string \<times> string) list" where
  \<open>cgi_tests port =
     [(''curl -X GET http://127.0.0.1:'' @ str_int port @ ''/cgi-bin/guestbook_display.php'',
         ''CGI GET''),
      (''curl -X POST '' @ ''-d "username=TestUser" '' @ ''-d "message=Hello from curl" ''
         @ ''http://127.0.0.1:'' @ str_int port @ ''/cgi-bin/guestbook.php'', ''CGI POST''),
      (''curl -X GET http://127.0.0.1:'' @ str_int port @ ''/cgi-bin/infinite.php'', ''CGI Timeout''),
      (''curl -i http://127.0.0.1:'' @ str_int port @ ''/cgi-bin/fatal_error.php'', ''CGI Error'')]\<close>

definition run_cgi_tests :: "env \<Rightarrow> int \<Rightarrow> world \<Rightarrow> world" where
  "run_cgi_tests e port w =
     run_tests e True (cgi_tests port)
       (log_msg INFO (''Running CGI tests on port '' @ str_int port @ ''...'') w)"

text \<open>Lines 173 to 207.\<close>

definition chunked_tests :: "int \<Rightarrow> (string \<times> string) list" where
  \<open>chunked_tests port =
     [(''curl -v http://localhost:'' @ str_int port @ ''/uploads ''
         @ ''-H "Transfer-Encoding: chunked" '' @ ''--data-binary "@big.txt"'', ''Chunked Binary''),
      (''curl -v http://localhost:'' @ str_int port @ ''/uploads ''
         @ ''-H "Transfer-Encoding: chunked" '' @ ''--data-binary "@test.txt"'', ''Chunked Text''),
      (''curl -v http://localhost:'' @ str_int port @ ''/uploads ''
         @ ''-H "Content-Type: text/plain" '' @ ''-H "Transfer-Encoding: chunked" ''
         @ ''--data-binary "hello again from plain text"'', ''Chunked Plain Text''),
      (''curl -v http://localhost:'' @ str_int port @ ''/uploads ''
         @ ''-H "Content-Type: application/x-www-form-urlencoded" ''
         @ ''-H "Transfer-Encoding: chunked" ''
         @ ''--data-binary "username=tester&message=chunked%20rocks"'', ''Chunked Form''),
      (''curl -v http://localhost:'' @ str_int port @ ''/uploads ''
         @ ''-H "Transfer-Encoding: chunked" '' @ ''-F "file=@test.txt"'', ''Chunked Multipart'')]\<close>

definition run_chunked_tests :: "env \<Rightarrow> int \<Rightarrow> world \<Rightarrow> world" where
  "run_chunked_tests e port w =
     run_tests e True (chunked_tests port)
       (log_msg INFO (''Running chunked POST tests on port '' @ str_int port @ ''...'') w)"

text \<open>Lines 209 to 214.\<close>

definition delete_cmd :: "int \<Rightarrow> string" where
  \<open>delete_cmd port =
     ''curl -v -X DELETE "http://127.0.0.1:'' @ str_int port @ ''/delete?file=test_1.txt"''\<close>

definition run_delete_tests :: "env \<Rightarrow> int \<Rightarrow> world \<Rightarrow> world" where
  "run_delete_tests e port w =
     (case run_command e (delete_cmd port) True default_timeout
             (log_msg INFO (''Running DELETE tests on port '' @ str_int port @ ''...'') w) of
        ((success, output), w1) \<Rightarrow> log_msg INFO (report ''DELETE Request'' success output) w1)"

text \<open>
  Lines 228 to 238: the one stress scenario, run with \<^verbatim>\<open>check=False\<close> and no
  \<^verbatim>\<open>timeout\<close> argument.
\<close>

definition stress_cmd :: "int \<Rightarrow> string" where
  "stress_cmd port = ''siege -b -c50 -t15s http://localhost:'' @ str_int port @ ''/index.html''"

definition stress_tests :: "int \<Rightarrow> (string \<times> string) list" where
  "stress_tests port = [(stress_cmd port, ''Stress GET'')]"

definition run_stress_tests :: "env \<Rightarrow> int \<Rightarrow> world \<Rightarrow> world" where
  "run_stress_tests e port w =
     run_tests e False (stress_tests port)
       (log_msg INFO (''Running stress tests on port '' @ str_int port @ ''...'') w)"

text \<open>Lines 240 to 258.\<close>

definition read_err_cmd :: string where
  "read_err_cmd = ''python3 read_err.py''"

definition big_header_cmd :: "int \<Rightarrow> string" where
  \<open>big_header_cmd port =
     ''curl -v -H "Host: $(printf 'a%.0s' {1..100000}).testiservu1.com" ''
       @ ''http://127.0.0.1:'' @ str_int port @ ''/index.html''\<close>

definition valgrind_cmd :: string where
  "valgrind_cmd = ''valgrind --leak-check=full --track-fds=yes ./webserv''"

definition run_other_tests :: "env \<Rightarrow> int \<Rightarrow> world \<Rightarrow> world" where
  "run_other_tests e port w =
     (let w0 = log_msg INFO (''Running other tests on port '' @ str_int port @ ''...'') w;
          w1 = create_read_err_script w0
      in case run_command e read_err_cmd True default_timeout w1 of
           ((success, output), w2) \<Rightarrow>
             (case run_command e (big_header_cmd port) True default_timeout
                     (log_msg INFO (report ''Abrupt Disconnect'' success output) w2) of
                ((success, output), w3) \<Rightarrow>
                  (case run_command e valgrind_cmd False 60
                          (log_msg INFO (report ''Big Header'' success output) w3) of
                     ((success, output), w4) \<Rightarrow>
                       log_msg INFO (report ''Valgrind FD Check'' success output) w4)))"

section \<open>The multi-host phase\<close>

text \<open>
  Lines 216 to 226: three nested loops, over the descriptors with their index, over the names
  of a descriptor, over its ports.
\<close>

definition multi_ip :: "nat \<Rightarrow> string" where
  "multi_ip i = ''127.0.0.'' @ str_nat (i + 1)"

definition multi_cmd :: "nat \<Rightarrow> string \<Rightarrow> int \<Rightarrow> string" where
  "multi_cmd i server_name port =
     ''curl --resolve '' @ server_name @ '':'' @ str_int port @ '':'' @ multi_ip i @ '' ''
       @ ''http://'' @ server_name @ '':'' @ str_int port @ ''/''"

fun multi_ports :: "env \<Rightarrow> nat \<Rightarrow> string \<Rightarrow> int list \<Rightarrow> world \<Rightarrow> world" where
  "multi_ports e i server_name [] w = w"
| "multi_ports e i server_name (port # ps) w =
     (case run_command e (multi_cmd i server_name port) True default_timeout w of
        ((success, output), w1) \<Rightarrow>
          multi_ports e i server_name ps
            (log_msg INFO
               (report (''Server '' @ server_name @ '':'' @ str_int port) success output) w1))"

fun multi_names :: "env \<Rightarrow> nat \<Rightarrow> int list \<Rightarrow> string list \<Rightarrow> world \<Rightarrow> world" where
  "multi_names e i ps [] w = w"
| "multi_names e i ps (server_name # ns) w =
     multi_names e i ps ns (multi_ports e i server_name ps w)"

fun multi_servers :: "env \<Rightarrow> nat \<Rightarrow> server list \<Rightarrow> world \<Rightarrow> world" where
  "multi_servers e i [] w = w"
| "multi_servers e i (server # servers) w =
     multi_servers e (i + 1) servers (multi_names e i (ports server) (server_names server) w)"

definition run_multi_loop_tests :: "env \<Rightarrow> server list \<Rightarrow> world \<Rightarrow> world" where
  "run_multi_loop_tests e servers w =
     multi_servers e 0 servers (log_msg INFO ''Running multi-loop tests...'' w)"

section \<open>\<^verbatim>\<open>main\<close>\<close>

definition CONFIG_FILE_PATH :: string where
  "CONFIG_FILE_PATH = ''config/multi.conf''"

text \<open>
  The body of the loop over the ports of one descriptor (lines 276 to 282). An exception
  that leaves \<^verbatim>\<open>run_basic_tests\<close> leaves the loops and \<^verbatim>\<open>main\<close> as well: nothing on
  the way handles it.
\<close>

definition run_port :: "env \<Rightarrow> int \<Rightarrow> world \<Rightarrow> string option \<times> world" where
  "run_port e port w =
     (case run_basic_tests e port
             (log_msg INFO (''Testing server on port '' @ str_int port) w) of
        (Some msg, w1) \<Rightarrow> (Some msg, w1)
      | (None, w1) \<Rightarrow>
          (None,
           run_other_tests e port
             (run_stress_tests e port
                (run_delete_tests e port
                   (run_chunked_tests e port
                      (run_cgi_tests e port w1))))))"

fun run_ports :: "env \<Rightarrow> int list \<Rightarrow> world \<Rightarrow> string option \<times> world" where
  "run_ports e [] w = (None, w)"
| "run_ports e (port # ps) w =
     (case run_port e port w of
        (Some msg, w1) \<Rightarrow> (Some msg, w1)
      | (None, w1) \<Rightarrow> run_ports e ps w1)"

fun run_servers :: "env \<Rightarrow> server list \<Rightarrow> world \<Rightarrow> string option \<times> world" where
  "run_servers e [] w = (None, w)"
| "run_servers e (server # servers) w =
     (case run_ports e (ports server) w of
        (Some msg, w1) \<Rightarrow> (Some msg, w1)
      | (None, w1) \<Rightarrow> run_servers e servers w1)"

text \<open>
  Lines 260 to 288. The result is the exit status of the process: the argument of
  \<^verbatim>\<open>sys.exit\<close>, 1 when an exception leaves \<^verbatim>\<open>main\<close> (the interpreter prints the
  traceback and exits with 1), or 0 when \<^verbatim>\<open>main\<close> returns. The dash of the message of
  line 267 is written as the three bytes of its UTF-8 form.
\<close>

definition main :: "env \<Rightarrow> world \<Rightarrow> nat \<times> world" where
  "main e w =
     (case parse_config e CONFIG_FILE_PATH
             (log_msg INFO (''Starting tests with config file: '' @ CONFIG_FILE_PATH) w) of
        (Inl status, w1) \<Rightarrow> (status, w1)
      | (Inr servers, w1) \<Rightarrow>
          if \<not> (1 \<le> length servers \<and> length servers \<le> 3)
          then (1, log_msg ERROR (''Config file must contain 1'' @ [CHR 0xE2, CHR 0x80, CHR 0x93]
                                   @ ''3 server blocks'') w1)
          else
            (case run_servers e servers (prepare_test_files e w1) of
               (Some msg, w3) \<Rightarrow> (1, w3)
             | (None, w3) \<Rightarrow>
                 (let w4 = (if length servers > 1 then run_multi_loop_tests e servers w3 else w3)
                  in (0, log_msg INFO ''All tests completed'' w4))))"

section \<open>Reference descriptions\<close>

text \<open>
  Which of the four \<^verbatim>\<open>return\<close> statements of \<^verbatim>\<open>run_command\<close> an outcome of
  \<^verbatim>\<open>subprocess.run\<close> reaches: line 62, line 61, line 65 or line 68.
\<close>

datatype classification = Success | Failure | Timeout | ExecutionError

definition classification :: "bool \<Rightarrow> exn + completed \<Rightarrow> classification" where
  "classification check outcome =
     (case outcome of
        Inr result \<Rightarrow> if check \<and> returncode result \<noteq> 0 then Failure else Success
      | Inl TimeoutExpired \<Rightarrow> Timeout
      | Inl (OtherError msg) \<Rightarrow> ExecutionError)"

text \<open>
  The commands one port is due, category by category: basic, CGI, chunked, delete, stress,
  miscellaneous, each with the timeout it is run under.
\<close>

definition with_timeout :: "nat \<Rightarrow> (string \<times> string) list \<Rightarrow> (string \<times> nat) list" where
  "with_timeout t tests = map (\<lambda>(cmd, test_name). (cmd, t)) tests"

definition port_cmds :: "int \<Rightarrow> (string \<times> nat) list" where
  "port_cmds port =
     with_timeout 30 (basic_table port (str_int (port + 1))) @ with_timeout 30 (cgi_tests port)
       @ with_timeout 30 (chunked_tests port) @ [(delete_cmd port, 30)]
       @ with_timeout 30 (stress_tests port)
       @ [(read_err_cmd, 30), (big_header_cmd port, 30), (valgrind_cmd, 60)]"

text \<open>
  The resolution scenarios of the descriptor at index \<open>i\<close>: one per name and port, name by
  name; and those of a sequence of descriptors whose first index is \<open>i\<close>.
\<close>

definition server_scenarios :: "nat \<Rightarrow> server \<Rightarrow> string list" where
  "server_scenarios i server =
     concat (map (\<lambda>server_name. map (multi_cmd i server_name) (ports server))
               (server_names server))"

definition multi_scenarios :: "nat \<Rightarrow> server list \<Rightarrow> string list" where
  "multi_scenarios i servers =
     concat (map (\<lambda>(k, server). server_scenarios k server)
               (zip [i ..< i + length servers] servers))"

text \<open>
  The descriptors whose per-port suites can all be built: \<^verbatim>\<open>{port+1}\<close> fits for every
  port.
\<close>

definition alt_ports_fit :: "server list \<Rightarrow> bool" where
  "alt_ports_fit servers \<longleftrightarrow> list_all (\<lambda>server. list_all (\<lambda>port. fits (port + 1)) (ports server)) servers"

text \<open>Everything a run over the descriptors \<open>servers\<close> is due, in order.\<close>

definition schedule :: "server list \<Rightarrow> (string \<times> nat) list" where
  "schedule servers =
     map (\<lambda>c. (c, 30)) prepare_cmds
       @ concat (map (\<lambda>server. concat (map port_cmds (ports server))) servers)
       @ (if 1 < length servers then map (\<lambda>c. (c, 30)) (multi_scenarios 0 servers) else [])"

text \<open>Sample surroundings: nothing done yet, and an environment that always answers the same.\<close>

definition empty_world :: world where
  "empty_world = \<lparr>logged = [], executed = [], written = []\<rparr>"

definition fixed_env :: "read_result \<Rightarrow> exn + completed \<Rightarrow> env" where
  "fixed_env r outcome = \<lparr>read_file = (\<lambda>path. r), shell = (\<lambda>history cmd t. outcome)\<rparr>"

definition exit_with :: "int \<Rightarrow> exn + completed" where
  "exit_with rc = Inr \<lparr>returncode = rc, stdout = ''out'', stderr = ''err''\<rparr>"

section \<open>Well-formed configurations\<close>

text \<open>
  A configuration text written out from its parts: a preamble, then the blocks. A block is
  the word \<^verbatim>\<open>server\<close>, white space, the opening brace, its directives each after some
  white space, white space, the closing brace and white space again. A directive is
  \<^verbatim>\<open>listen\<close> with a number or \<^verbatim>\<open>server_name\<close> with names. A name is a host name: not
  empty, without white space, semicolon or opening brace, and not a number. The number of a
  \<^verbatim>\<open>listen\<close> directive has no more digits than the interpreter converts.
\<close>

datatype directive = Listen nat | ServerName "string list"

record block =
  gap :: string
  items :: "(string \<times> directive) list"
  closing :: string
  trailer :: string

fun render_directive :: "directive \<Rightarrow> string" where
  "render_directive (Listen n) = ''listen '' @ str_nat n @ '';''"
| "render_directive (ServerName ns) = ''server_name '' @ join '' '' ns @ '';''"

definition render_items :: "(string \<times> directive) list \<Rightarrow> string" where
  "render_items its = concat (map (\<lambda>(sep, d). sep @ render_directive d) its)"

definition render_body :: "block \<Rightarrow> string" where
  "render_body b = render_items (items b) @ closing b @ ''}'' @ trailer b"

definition render_block :: "block \<Rightarrow> string" where
  "render_block b = ''server'' @ gap b @ ''{'' @ render_body b"

definition render_config :: "string \<Rightarrow> block list \<Rightarrow> string" where
  "render_config pre blocks = pre @ concat (map render_block blocks)"

definition all_space :: "string \<Rightarrow> bool" where
  "all_space s \<longleftrightarrow> (\<forall>c\<in>set s. is_space c)"

definition name_ok :: "string \<Rightarrow> bool" where
  "name_ok n \<longleftrightarrow>
     n \<noteq> [] \<and> (\<forall>c\<in>set n. \<not> is_space c \<and> c \<noteq> CHR '';'' \<and> c \<noteq> CHR ''{'')
     \<and> (\<exists>c\<in>set n. \<not> is_digit c)"

fun names_ok :: "directive \<Rightarrow> bool" where
  "names_ok (Listen n) = True"
| "names_ok (ServerName ns) = (ns \<noteq> [] \<and> (\<forall>n\<in>set ns. name_ok n))"


text \<open>
  \<open>block_shaped\<close> is what the scanning depends on; \<open>block_ok\<close> adds the bound on the numbers.
\<close>

definition block_shaped :: "block \<Rightarrow> bool" where
  "block_shaped b \<longleftrightarrow>
     all_space (gap b) \<and> (\<forall>(sep, d)\<in>set (items b). all_space sep \<and> names_ok d)
     \<and> all_space (closing b) \<and> all_space (trailer b)"


text \<open>
  What a block is expected to yield: its numbers in order, and the names of its first
  \<^verbatim>\<open>server_name\<close>.
\<close>

fun listen_numbers :: "directive list \<Rightarrow> nat list" where
  "listen_numbers [] = []"
| "listen_numbers (Listen n # ds) = n # listen_numbers ds"
| "listen_numbers (ServerName ns # ds) = listen_numbers ds"

fun first_names :: "directive list \<Rightarrow> string list" where
  "first_names [] = []"
| "first_names (Listen n # ds) = first_names ds"
| "first_names (ServerName ns # ds) = ns"


text \<open>The expression of line 36 on the list of captured groups.\<close>

definition first_split :: "string list \<Rightarrow> string list" where
  "first_split names = (case names of [] \<Rightarrow> [] | n # _ \<Rightarrow> py_split n)"

text \<open>
  The captured digit strings of all \<^verbatim>\<open>listen\<close> directives of a text, block by block: what
  \<^verbatim>\<open>int\<close> is applied to.
\<close>

definition listen_groups :: "string \<Rightarrow> string list" where
  "listen_groups content =
     concat (map (findall match_listen) (tl (re_split match_open [] content)))"

text \<open>Sample numbers at the conversion limit: the least number with 4301 digits.\<close>

definition over_limit :: nat where
  "over_limit = 10 ^ max_str_digits"

definition block_of :: "directive list \<Rightarrow> block" where
  "block_of ds = \<lparr>gap = '' '', items = map (\<lambda>d. ('' '', d)) ds, closing = '' '', trailer = [CHR 0x0A]\<rparr>"

section \<open>Effects of the phases\<close>

lemma executed_log_msg: "executed (log_msg l m w) = executed w"
  by (simp add: log_msg_def)

lemma written_log_msg: "written (log_msg l m w) = written w"
  by (simp add: log_msg_def)

lemma executed_run_command:
  "executed (snd (run_command e c chk t w)) = executed w @ [(c, t)]"
  by (simp add: run_command_def Let_def executed_log_msg split: sum.splits exn.splits)

lemma written_run_command: "written (snd (run_command e c chk t w)) = written w"
  by (simp add: run_command_def Let_def written_log_msg split: sum.splits exn.splits)

lemma executed_run_tests:
  "executed (run_tests e chk tests w) = executed w @ with_timeout default_timeout tests"
proof (induction tests arbitrary: w)
  case Nil
  show ?case by (simp add: with_timeout_def)
next
  case (Cons a tests)
  obtain cmd nm where a: "a = (cmd, nm)" by (cases a)
  obtain r w1 where rc: "run_command e cmd chk default_timeout w = (r, w1)"
    by (cases "run_command e cmd chk default_timeout w")
  have "executed w1 = executed w @ [(cmd, default_timeout)]"
    using executed_run_command [of e cmd chk default_timeout w] rc by simp
  then show ?case
    using Cons.IH a rc by (cases r) (simp add: executed_log_msg with_timeout_def)
qed

lemma written_run_tests: "written (run_tests e chk tests w) = written w"
proof (induction tests arbitrary: w)
  case Nil
  show ?case by simp
next
  case (Cons a tests)
  obtain cmd nm where a: "a = (cmd, nm)" by (cases a)
  obtain r w1 where rc: "run_command e cmd chk default_timeout w = (r, w1)"
    by (cases "run_command e cmd chk default_timeout w")
  have "written w1 = written w"
    using written_run_command [of e cmd chk default_timeout w] rc by simp
  then show ?case
    using Cons.IH a rc by (cases r) (simp add: written_log_msg)
qed

lemma executed_run_delete_tests:
  "executed (run_delete_tests e port w) = executed w @ [(delete_cmd port, default_timeout)]"
proof -
  let ?w0 = "log_msg INFO (''Running DELETE tests on port '' @ str_int port @ ''...'') w"
  obtain r w1 where rc: "run_command e (delete_cmd port) True default_timeout ?w0 = (r, w1)"
    by (cases "run_command e (delete_cmd port) True default_timeout ?w0")
  have "executed w1 = executed w @ [(delete_cmd port, default_timeout)]"
    using executed_run_command [of e "delete_cmd port" True default_timeout ?w0] rc
    by (simp add: executed_log_msg)
  then show ?thesis
    using rc by (cases r) (simp add: run_delete_tests_def executed_log_msg)
qed

lemma written_run_delete_tests: "written (run_delete_tests e port w) = written w"
proof -
  let ?w0 = "log_msg INFO (''Running DELETE tests on port '' @ str_int port @ ''...'') w"
  obtain r w1 where rc: "run_command e (delete_cmd port) True default_timeout ?w0 = (r, w1)"
    by (cases "run_command e (delete_cmd port) True default_timeout ?w0")
  have "written w1 = written w"
    using written_run_command [of e "delete_cmd port" True default_timeout ?w0] rc
    by (simp add: written_log_msg)
  then show ?thesis
    using rc by (cases r) (simp add: run_delete_tests_def written_log_msg)
qed

lemma run_command_step:
  obtains b out w1 where "run_command e c chk t w = ((b, out), w1)"
    and "executed w1 = executed w @ [(c, t)]" and "written w1 = written w"
proof -
  obtain b out w1 where rc: "run_command e c chk t w = ((b, out), w1)"
    by (metis surj_pair)
  have "executed w1 = executed w @ [(c, t)]"
    using executed_run_command [of e c chk t w] rc by simp
  moreover have "written w1 = written w"
    using written_run_command [of e c chk t w] rc by simp
  ultimately show ?thesis using that rc by blast
qed

lemma run_other_tests_effect:
  "executed (run_other_tests e port w) =
     executed w @ [(read_err_cmd, default_timeout), (big_header_cmd port, default_timeout),
                   (valgrind_cmd, 60)]
   \<and> written (run_other_tests e port w) = written w"
proof -
  let ?w0 = "log_msg INFO (''Running other tests on port '' @ str_int port @ ''...'') w"
  obtain b1 o1 w1 where s1: "run_command e read_err_cmd True default_timeout ?w0 = ((b1, o1), w1)"
    and e1: "executed w1 = executed ?w0 @ [(read_err_cmd, default_timeout)]"
    and f1: "written w1 = written ?w0"
    by (rule run_command_step)
  let ?w1 = "log_msg INFO (report ''Abrupt Disconnect'' b1 o1) w1"
  obtain b2 o2 w2 where
    s2: "run_command e (big_header_cmd port) True default_timeout ?w1 = ((b2, o2), w2)"
    and e2: "executed w2 = executed ?w1 @ [(big_header_cmd port, default_timeout)]"
    and f2: "written w2 = written ?w1"
    by (rule run_command_step)
  let ?w2 = "log_msg INFO (report ''Big Header'' b2 o2) w2"
  obtain b3 o3 w3 where s3: "run_command e valgrind_cmd False 60 ?w2 = ((b3, o3), w3)"
    and e3: "executed w3 = executed ?w2 @ [(valgrind_cmd, 60)]"
    and f3: "written w3 = written ?w2"
    by (rule run_command_step)
  have "run_other_tests e port w = log_msg INFO (report ''Valgrind FD Check'' b3 o3) w3"
    using s1 s2 s3 by (simp add: run_other_tests_def create_read_err_script_def Let_def)
  then show ?thesis
    using e1 e2 e3 f1 f2 f3 by (simp add: executed_log_msg written_log_msg)
qed

lemma run_basic_tests_effect:
  assumes "fits (port + 1)"
  shows "fst (run_basic_tests e port w) = None"
    and "executed (snd (run_basic_tests e port w))
           = executed w @ with_timeout default_timeout (basic_table port (str_int (port + 1)))"
    and "written (snd (run_basic_tests e port w)) = written w"
  using assms
  by (simp_all add: run_basic_tests_def basic_tests_def format_int_def Let_def
      executed_run_tests written_run_tests executed_log_msg written_log_msg)

lemma run_basic_tests_raise:
  assumes "\<not> fits (port + 1)"
  shows "fst (run_basic_tests e port w) \<noteq> None"
    and "executed (snd (run_basic_tests e port w)) = executed w"
    and "written (snd (run_basic_tests e port w)) = written w"
  using assms
  by (simp_all add: run_basic_tests_def basic_tests_def format_int_def Let_def
      executed_log_msg written_log_msg)

lemma run_port_effect:
  assumes "fits (port + 1)"
  shows "fst (run_port e port w) = None"
    and "executed (snd (run_port e port w)) = executed w @ port_cmds port"
    and "written (snd (run_port e port w)) = written w"
proof -
  let ?w0 = "log_msg INFO (''Testing server on port '' @ str_int port) w"
  obtain w1 where r: "run_basic_tests e port ?w0 = (None, w1)"
    using run_basic_tests_effect(1) [OF assms, of e ?w0]
    by (cases "run_basic_tests e port ?w0") simp
  have e1: "executed w1
              = executed w @ with_timeout default_timeout (basic_table port (str_int (port + 1)))"
    using run_basic_tests_effect(2) [OF assms, of e ?w0] r by (simp add: executed_log_msg)
  have f1: "written w1 = written w"
    using run_basic_tests_effect(3) [OF assms, of e ?w0] r by (simp add: written_log_msg)
  have rp: "run_port e port w =
      (None, run_other_tests e port (run_stress_tests e port (run_delete_tests e port
         (run_chunked_tests e port (run_cgi_tests e port w1)))))"
    using r by (simp add: run_port_def)
  show "fst (run_port e port w) = None" using rp by simp
  show "executed (snd (run_port e port w)) = executed w @ port_cmds port"
    unfolding rp
    by (simp add: port_cmds_def run_other_tests_effect executed_run_tests
        executed_run_delete_tests run_cgi_tests_def run_chunked_tests_def run_stress_tests_def
        executed_log_msg default_timeout_def e1)
  show "written (snd (run_port e port w)) = written w"
    unfolding rp
    by (simp add: run_other_tests_effect written_run_tests written_run_delete_tests
        run_cgi_tests_def run_chunked_tests_def run_stress_tests_def written_log_msg f1)
qed

lemma run_port_raise:
  assumes "\<not> fits (port + 1)"
  shows "fst (run_port e port w) \<noteq> None"
    and "executed (snd (run_port e port w)) = executed w"
    and "written (snd (run_port e port w)) = written w"
proof -
  let ?w0 = "log_msg INFO (''Testing server on port '' @ str_int port) w"
  obtain msg w1 where r: "run_basic_tests e port ?w0 = (Some msg, w1)"
    using run_basic_tests_raise(1) [OF assms, of e ?w0]
    by (cases "run_basic_tests e port ?w0") auto
  have e1: "executed w1 = executed w"
    using run_basic_tests_raise(2) [OF assms, of e ?w0] r by (simp add: executed_log_msg)
  have f1: "written w1 = written w"
    using run_basic_tests_raise(3) [OF assms, of e ?w0] r by (simp add: written_log_msg)
  have rp: "run_port e port w = (Some msg, w1)" using r by (simp add: run_port_def)
  show "fst (run_port e port w) \<noteq> None" using rp by simp
  show "executed (snd (run_port e port w)) = executed w" using rp e1 by simp
  show "written (snd (run_port e port w)) = written w" using rp f1 by simp
qed

lemma run_ports_effect:
  "list_all (\<lambda>port. fits (port + 1)) ps \<Longrightarrow>
     fst (run_ports e ps w) = None
     \<and> executed (snd (run_ports e ps w)) = executed w @ concat (map port_cmds ps)
     \<and> written (snd (run_ports e ps w)) = written w"
proof (induction ps arbitrary: w)
  case Nil
  show ?case by simp
next
  case (Cons p ps)
  then have p: "fits (p + 1)" and ps: "list_all (\<lambda>port. fits (port + 1)) ps" by simp_all
  obtain w1 where r: "run_port e p w = (None, w1)"
    using run_port_effect(1) [OF p, of e w] by (cases "run_port e p w") simp
  have "executed w1 = executed w @ port_cmds p" and "written w1 = written w"
    using run_port_effect(2,3) [OF p, of e w] r by simp_all
  then show ?case using Cons.IH [OF ps, of w1] r by simp
qed

lemma run_ports_written: "written (snd (run_ports e ps w)) = written w"
proof (induction ps arbitrary: w)
  case Nil
  show ?case by simp
next
  case (Cons p ps)
  have wr: "written (snd (run_port e p w)) = written w"
    using run_port_effect(3) [of p e w] run_port_raise(3) [of p e w] by blast
  show ?case
  proof (cases "run_port e p w")
    case (Pair r w1)
    then show ?thesis using wr Cons.IH [of w1] by (cases r) simp_all
  qed
qed

lemma run_ports_status:
  "(fst (run_ports e ps w) = None) = list_all (\<lambda>port. fits (port + 1)) ps"
proof (induction ps arbitrary: w)
  case Nil
  show ?case by simp
next
  case (Cons p ps)
  show ?case
  proof (cases "fits (p + 1)")
    case True
    obtain w1 where r: "run_port e p w = (None, w1)"
      using run_port_effect(1) [OF True, of e w] by (cases "run_port e p w") simp
    show ?thesis using True r Cons.IH [of w1] by simp
  next
    case False
    obtain msg w1 where r: "run_port e p w = (Some msg, w1)"
      using run_port_raise(1) [OF False, of e w] by (cases "run_port e p w") auto
    show ?thesis using False r by simp
  qed
qed

lemma run_servers_effect:
  "alt_ports_fit servers \<Longrightarrow>
     fst (run_servers e servers w) = None
     \<and> executed (snd (run_servers e servers w)) =
         executed w @ concat (map (\<lambda>server. concat (map port_cmds (ports server))) servers)
     \<and> written (snd (run_servers e servers w)) = written w"
proof (induction servers arbitrary: w)
  case Nil
  show ?case by simp
next
  case (Cons s servers)
  then have p: "list_all (\<lambda>port. fits (port + 1)) (ports s)" and ss: "alt_ports_fit servers"
    by (simp_all add: alt_ports_fit_def)
  obtain w1 where r: "run_ports e (ports s) w = (None, w1)"
    using run_ports_effect [OF p, of e w] by (cases "run_ports e (ports s) w") simp
  have "executed w1 = executed w @ concat (map port_cmds (ports s))" and "written w1 = written w"
    using run_ports_effect [OF p, of e w] r by simp_all
  then show ?case using Cons.IH [OF ss, of w1] r by simp
qed

lemma run_servers_written: "written (snd (run_servers e servers w)) = written w"
proof (induction servers arbitrary: w)
  case Nil
  show ?case by simp
next
  case (Cons s servers)
  show ?case
  proof (cases "run_ports e (ports s) w")
    case (Pair r w1)
    then have "written w1 = written w" using run_ports_written [of e "ports s" w] by simp
    then show ?thesis using Pair Cons.IH [of w1] by (cases r) simp_all
  qed
qed

lemma run_servers_status:
  "(fst (run_servers e servers w) = None) = alt_ports_fit servers"
proof (induction servers arbitrary: w)
  case Nil
  show ?case by (simp add: alt_ports_fit_def)
next
  case (Cons s servers)
  show ?case
  proof (cases "run_ports e (ports s) w")
    case (Pair r w1)
    have st: "(r = None) = list_all (\<lambda>port. fits (port + 1)) (ports s)"
      using run_ports_status [of e "ports s" w] Pair by simp
    show ?thesis
    proof (cases r)
      case None
      then show ?thesis using Pair st Cons.IH [of w1] by (simp add: alt_ports_fit_def)
    next
      case (Some msg)
      then show ?thesis using Pair st by (simp add: alt_ports_fit_def)
    qed
  qed
qed

lemma multi_ports_effect:
  "executed (multi_ports e i n ps w) =
     executed w @ map (\<lambda>c. (c, 30)) (map (multi_cmd i n) ps)
   \<and> written (multi_ports e i n ps w) = written w"
proof (induction ps arbitrary: w)
  case Nil
  show ?case by simp
next
  case (Cons p ps)
  obtain b out w1 where
    s1: "run_command e (multi_cmd i n p) True default_timeout w = ((b, out), w1)"
    and e1: "executed w1 = executed w @ [(multi_cmd i n p, default_timeout)]"
    and f1: "written w1 = written w"
    by (rule run_command_step)
  show ?case
    using s1 e1 f1 Cons.IH
    by (simp add: executed_log_msg written_log_msg default_timeout_def)
qed

lemma multi_names_effect:
  "executed (multi_names e i ps ns w) =
     executed w @ map (\<lambda>c. (c, 30)) (concat (map (\<lambda>n. map (multi_cmd i n) ps) ns))
   \<and> written (multi_names e i ps ns w) = written w"
  by (induction ns arbitrary: w) (simp_all add: multi_ports_effect)

lemma multi_scenarios_Cons:
  "multi_scenarios i (server # servers) =
     server_scenarios i server @ multi_scenarios (i + 1) servers"
proof -
  have "[i ..< i + length (server # servers)] = i # [i + 1 ..< i + 1 + length servers]"
    by (simp add: upt_rec)
  then show ?thesis by (simp add: multi_scenarios_def)
qed

lemma multi_servers_effect:
  "executed (multi_servers e i servers w) =
     executed w @ map (\<lambda>c. (c, 30)) (multi_scenarios i servers)
   \<and> written (multi_servers e i servers w) = written w"
proof (induction servers arbitrary: i w)
  case Nil
  show ?case by (simp add: multi_scenarios_def)
next
  case (Cons server servers)
  show ?case
    using Cons.IH [of "i + 1"]
    by (simp add: multi_names_effect multi_scenarios_Cons server_scenarios_def)
qed

lemma run_multi_loop_tests_effect:
  "executed (run_multi_loop_tests e servers w) =
     executed w @ map (\<lambda>c. (c, 30)) (multi_scenarios 0 servers)
   \<and> written (run_multi_loop_tests e servers w) = written w"
  by (simp add: run_multi_loop_tests_def multi_servers_effect executed_log_msg written_log_msg)

lemma prepare_test_files_effect:
  "executed (prepare_test_files e w) = executed w @ map (\<lambda>c. (c, 30)) prepare_cmds
   \<and> written (prepare_test_files e w) = written w"
  by (simp add: prepare_test_files_def Let_def executed_run_command written_run_command
      executed_log_msg written_log_msg prepare_cmds_def default_timeout_def)

lemma parse_config_effect:
  "executed (snd (parse_config e p w)) = executed w
   \<and> written (snd (parse_config e p w)) = written w"
  by (simp add: parse_config_def executed_log_msg written_log_msg
      split: read_result.splits sum.splits)

lemma parse_config_value:
  "fst (parse_config e p w) =
     (case read_file e p of
        Content c \<Rightarrow> (case parse_text c of Inl msg \<Rightarrow> Inl 1 | Inr servers \<Rightarrow> Inr servers)
      | _ \<Rightarrow> Inl 1)"
  by (simp add: parse_config_def split: read_result.splits sum.splits)

lemma main_effect_ok:
  assumes "read_file e CONFIG_FILE_PATH = Content c" and "parse_text c = Inr servers"
    and "1 \<le> length servers" and "length servers \<le> 3" and "alt_ports_fit servers"
  shows "fst (main e w) = 0"
    and "executed (snd (main e w)) = executed w @ schedule servers"
    and "written (snd (main e w)) = written w"
proof -
  let ?w1 = "log_msg INFO (''Found '' @ str_nat (length servers) @ '' server blocks with ports: ''
                @ repr_list (repr_list str_int) (map ports servers))
              (log_msg INFO (''Starting tests with config file: '' @ CONFIG_FILE_PATH) w)"
  let ?w2 = "prepare_test_files e ?w1"
  obtain w3 where r: "run_servers e servers ?w2 = (None, w3)"
    using run_servers_effect [OF assms(5), of e ?w2] by (cases "run_servers e servers ?w2") simp
  have e3: "executed w3 = executed w @ map (\<lambda>c. (c, 30)) prepare_cmds
              @ concat (map (\<lambda>server. concat (map port_cmds (ports server))) servers)"
    and f3: "written w3 = written w"
    using run_servers_effect [OF assms(5), of e ?w2] r
    by (simp_all add: prepare_test_files_effect executed_log_msg written_log_msg)
  have m: "main e w =
      (0, log_msg INFO ''All tests completed''
            (if length servers > 1 then run_multi_loop_tests e servers w3 else w3))"
    using assms(1-4) r by (simp add: main_def parse_config_def Let_def)
  show "fst (main e w) = 0" using m by simp
  show "executed (snd (main e w)) = executed w @ schedule servers"
    unfolding m using e3
    by (simp add: schedule_def run_multi_loop_tests_effect executed_log_msg)
  show "written (snd (main e w)) = written w"
    unfolding m using f3 by (simp add: run_multi_loop_tests_effect written_log_msg)
qed

lemma main_effect_reject:
  assumes "read_file e CONFIG_FILE_PATH = Content c"
    and "case parse_text c of
           Inl msg \<Rightarrow> True
         | Inr servers \<Rightarrow> \<not> (1 \<le> length servers \<and> length servers \<le> 3)"
  shows "fst (main e w) = 1"
    and "executed (snd (main e w)) = executed w"
    and "written (snd (main e w)) = written w"
proof -
  have "\<exists>w1. main e w = (1, w1) \<and> executed w1 = executed w \<and> written w1 = written w"
  proof (cases "parse_text c")
    case (Inl msg)
    then show ?thesis
      using assms(1) by (simp add: main_def parse_config_def executed_log_msg written_log_msg)
  next
    case (Inr servers)
    with assms(2) have "\<not> (1 \<le> length servers \<and> length servers \<le> 3)" by simp
    then have "length servers = 0 \<or> 3 < length servers" by arith
    then show ?thesis
      using assms(1) Inr
      by (auto simp: main_def parse_config_def executed_log_msg written_log_msg)
  qed
  then obtain w1 where "main e w = (1, w1)" "executed w1 = executed w" "written w1 = written w"
    by blast
  then show "fst (main e w) = 1" and "executed (snd (main e w)) = executed w"
    and "written (snd (main e w)) = written w"
    by simp_all
qed

lemma main_status:
  "fst (main e w) =
     (case read_file e CONFIG_FILE_PATH of
        Content c \<Rightarrow>
          (case parse_text c of
             Inl msg \<Rightarrow> 1
           | Inr servers \<Rightarrow>
               if 1 \<le> length servers \<and> length servers \<le> 3 \<and> alt_ports_fit servers then 0 else 1)
      | _ \<Rightarrow> 1)"
proof (cases "read_file e CONFIG_FILE_PATH")
  case (Content c)
  show ?thesis
  proof (cases "parse_text c")
    case (Inl msg)
    then show ?thesis using Content by (simp add: main_def parse_config_def)
  next
    case (Inr servers)
    let ?w1 = "log_msg INFO (''Found '' @ str_nat (length servers) @ '' server blocks with ports: ''
                  @ repr_list (repr_list str_int) (map ports servers))
                (log_msg INFO (''Starting tests with config file: '' @ CONFIG_FILE_PATH) w)"
    let ?w2 = "prepare_test_files e ?w1"
    obtain r w3 where rs: "run_servers e servers ?w2 = (r, w3)"
      by (cases "run_servers e servers ?w2")
    have st: "(r = None) = alt_ports_fit servers"
      using run_servers_status [of e servers ?w2] rs by simp
    show ?thesis
      using Content Inr rs st
      by (cases r) (simp_all add: main_def parse_config_def Let_def)
  qed
qed (simp_all add: main_def parse_config_def)

lemma main_written: "written (snd (main e w)) = written w"
proof (cases "read_file e CONFIG_FILE_PATH")
  case (Content c)
  show ?thesis
  proof (cases "parse_text c")
    case (Inl msg)
    then show ?thesis using Content by (simp add: main_def parse_config_def written_log_msg)
  next
    case (Inr servers)
    let ?w1 = "log_msg INFO (''Found '' @ str_nat (length servers) @ '' server blocks with ports: ''
                  @ repr_list (repr_list str_int) (map ports servers))
                (log_msg INFO (''Starting tests with config file: '' @ CONFIG_FILE_PATH) w)"
    let ?w2 = "prepare_test_files e ?w1"
    obtain r w3 where rs: "run_servers e servers ?w2 = (r, w3)"
      by (cases "run_servers e servers ?w2")
    have "written w3 = written w"
      using run_servers_written [of e servers ?w2] rs
      by (simp add: prepare_test_files_effect written_log_msg)
    then show ?thesis
      using Content Inr rs
      by (cases r) (simp_all add: main_def parse_config_def Let_def written_log_msg
          run_multi_loop_tests_effect)
  qed
qed (simp_all add: main_def parse_config_def written_log_msg)

section \<open>Decimal numerals and white space\<close>

lemma small_cases: "d < (10::nat) \<Longrightarrow> d \<in> {0, 1, 2, 3, 4, 5, 6, 7, 8, 9}"
  by auto

lemma is_digit_char: "d < 10 \<Longrightarrow> is_digit (digit_char d)"
  unfolding is_digit_def digit_char_def by (rule nth_mem) simp

lemma digit_val_char: "d < 10 \<Longrightarrow> digit_val (digit_char d) = int d"
  using small_cases [of d] by (auto simp: digit_val_def digit_char_def)

lemma str_nat_digits: "c \<in> set (str_nat n) \<Longrightarrow> is_digit c"
proof (induction n arbitrary: c rule: str_nat.induct)
  case (1 n)
  show ?case
  proof (cases "n < 10")
    case True
    with "1.prems" show ?thesis by (simp add: str_nat.simps [of n] is_digit_char)
  next
    case False
    with "1.prems" "1.IH" show ?thesis
      by (auto simp: str_nat.simps [of n] is_digit_char)
  qed
qed

lemma str_nat_nonempty: "str_nat n \<noteq> []"
  by (subst str_nat.simps) simp

lemma int_of_digits_snoc: "int_of_digits (ds @ [c]) = 10 * int_of_digits ds + digit_val c"
  by (simp add: int_of_digits_def)

lemma int_of_digits_str_nat: "int_of_digits (str_nat n) = int n"
proof (induction n rule: str_nat.induct)
  case (1 n)
  show ?case
  proof (cases "n < 10")
    case True
    then show ?thesis
      by (simp add: str_nat.simps [of n] int_of_digits_def digit_val_char)
  next
    case False
    have "int_of_digits (str_nat n) = 10 * int (n div 10) + int (n mod 10)"
      using False "1.IH"
      by (simp add: str_nat.simps [of n] int_of_digits_snoc digit_val_char)
    also have "\<dots> = int n" by presburger
    finally show ?thesis .
  qed
qed

lemma str_nat_inj: "str_nat a = str_nat b \<Longrightarrow> a = b"
proof -
  assume "str_nat a = str_nat b"
  then have "int_of_digits (str_nat a) = int_of_digits (str_nat b)" by (rule arg_cong)
  then show "a = b" unfolding int_of_digits_str_nat by simp
qed

lemma is_digit_not_space: "is_digit c \<Longrightarrow> \<not> is_space c"
  by (auto simp: is_digit_def is_space_def)






lemma split_ws_word:
  "\<forall>c\<in>set n. \<not> is_space c \<Longrightarrow> split_ws cur (n @ rest) = split_ws (cur @ n) rest"
  by (induction n arbitrary: cur) simp_all

lemma is_space_blank: "is_space (CHR '' '')"
  by (simp add: is_space_def)

lemma py_split_join:
  "\<forall>n\<in>set ns. n \<noteq> [] \<and> (\<forall>c\<in>set n. \<not> is_space c)
     \<Longrightarrow> py_split (join '' '' ns) = ns"
proof (induction ns rule: induct_list012)
  case 1
  show ?case by (simp add: py_split_def)
next
  case (2 x)
  then show ?case using split_ws_word [of x "[]" "[]"] by (simp add: py_split_def)
next
  case (3 x y ys)
  have "split_ws [] (x @ '' '' @ join '' '' (y # ys)) = split_ws x ('' '' @ join '' '' (y # ys))"
    using "3.prems" split_ws_word [of x "[]"] by simp
  also have "\<dots> = x # split_ws [] (join '' '' (y # ys))"
    using "3.prems" by (simp add: is_space_blank)
  finally show ?case using 3 by (simp add: py_split_def)
qed


lemma match_listen_digits:
  assumes "match_listen s = Some (g, r)"
  shows "g \<noteq> [] \<and> (\<forall>c\<in>set g. is_digit c)"
proof -
  obtain r0 where g: "g = takeWhile is_digit (dropWhile is_space r0)" and "g \<noteq> []"
    using assms
    by (auto simp: match_listen_def Let_def split: option.splits if_splits list.splits)
  then show ?thesis by (auto dest: set_takeWhileD)
qed

section \<open>The conversion limit\<close>

lemma max_str_digits_pos: "0 < max_str_digits"
  by (simp add: max_str_digits_def)

lemma length_str_nat_le: "0 < k \<Longrightarrow> (length (str_nat n) \<le> k) = (n < 10 ^ k)"
proof (induction n arbitrary: k rule: str_nat.induct)
  case (1 n)
  show ?case
  proof (cases "n < 10")
    case True
    have "(10::nat) ^ 1 \<le> 10 ^ k" using "1.prems" by (intro power_increasing) simp_all
    then have "n < 10 ^ k" using True by simp
    then show ?thesis using True "1.prems" by (simp add: str_nat.simps [of n])
  next
    case False
    then have len: "length (str_nat n) = Suc (length (str_nat (n div 10)))"
      by (simp add: str_nat.simps [of n])
    show ?thesis
    proof (cases "k = 1")
      case True
      then show ?thesis using False len str_nat_nonempty [of "n div 10"]
        by (cases "str_nat (n div 10)") simp_all
    next
      case k: False
      then obtain j where j: "k = Suc j" "0 < j" using "1.prems" by (cases k) auto
      have "(length (str_nat (n div 10)) \<le> j) = (n div 10 < 10 ^ j)"
        using "1.IH" [OF False j(2)] .
      moreover have "(n div 10 < 10 ^ j) = (n < 10 ^ Suc j)"
        by (simp add: div_less_iff_less_mult mult.commute)
      ultimately show ?thesis using len j by simp
    qed
  qed
qed

lemma length_str_nat_pow: "length (str_nat (10 ^ k)) = Suc k"
proof -
  have "length (str_nat (10 ^ k)) \<le> Suc k"
    using length_str_nat_le [of "Suc k" "10 ^ k"] by simp
  moreover have "\<not> length (str_nat (10 ^ k)) \<le> k"
  proof (cases "k = 0")
    case True
    then show ?thesis using str_nat_nonempty [of 1] by simp
  next
    case False
    then show ?thesis using length_str_nat_le [of k "10 ^ k"] by simp
  qed
  ultimately show ?thesis by simp
qed

lemma fits_nat: "fits (int n) = (n < 10 ^ max_str_digits)"
  using length_str_nat_le [OF max_str_digits_pos, of n] by (simp add: fits_def)

lemma over_limit_long: "\<not> length (str_nat over_limit) \<le> max_str_digits"
  by (simp add: over_limit_def length_str_nat_pow)

lemma below_limit_short: "length (str_nat (over_limit - 1)) \<le> max_str_digits"
  using length_str_nat_le [OF max_str_digits_pos, of "over_limit - 1"]
  by (simp add: over_limit_def)

lemma over_limit_not_fits: "\<not> fits (int (over_limit - 1) + 1)"
proof -
  have "0 < over_limit" by (simp add: over_limit_def)
  then have eq: "int (over_limit - 1) + 1 = int over_limit" by simp
  have "\<not> over_limit < 10 ^ max_str_digits" by (simp add: over_limit_def)
  then have "\<not> fits (int over_limit)" by (simp add: fits_nat)
  then show ?thesis unfolding eq .
qed

lemma py_int_short: "length d \<le> max_str_digits \<Longrightarrow> py_int d = Inr (int_of_digits d)"
  by (simp add: py_int_def)

lemma py_int_long: "\<not> length d \<le> max_str_digits \<Longrightarrow> \<exists>msg. py_int d = Inl msg"
  by (simp add: py_int_def)

lemma py_ints_short:
  "\<forall>d\<in>set ds. length d \<le> max_str_digits \<Longrightarrow> py_ints ds = Inr (map int_of_digits ds)"
  by (induction ds) (simp_all add: py_int_short)

lemma py_ints_Inr:
  "py_ints ds = Inr vs \<Longrightarrow> vs = map int_of_digits ds \<and> (\<forall>d\<in>set ds. length d \<le> max_str_digits)"
proof (induction ds arbitrary: vs)
  case Nil
  then show ?case by simp
next
  case (Cons d ds)
  from Cons.prems obtain v vs' where v: "py_int d = Inr v" and vs': "py_ints ds = Inr vs'"
    and vs: "vs = v # vs'"
    by (auto split: sum.splits)
  have "length d \<le> max_str_digits \<and> v = int_of_digits d"
    using v by (auto simp: py_int_def split: if_splits)
  then show ?case using Cons.IH [OF vs'] vs by simp
qed

lemma py_ints_long:
  assumes "d \<in> set ds" and "\<not> length d \<le> max_str_digits"
  shows "\<exists>msg. py_ints ds = Inl msg"
proof (cases "py_ints ds")
  case (Inl msg)
  then show ?thesis by blast
next
  case (Inr vs)
  then show ?thesis using py_ints_Inr assms by blast
qed

lemma parse_block_short:
  assumes "\<forall>g\<in>set (findall match_listen b). length g \<le> max_str_digits"
  shows "parse_block b =
           Inr \<lparr>ports = map int_of_digits (findall match_listen b),
                server_names = first_split (findall match_server_name b)\<rparr>"
  using py_ints_short [OF assms] by (simp add: parse_block_def first_split_def)

lemma parse_block_Inr:
  assumes "parse_block b = Inr s"
  shows "s = \<lparr>ports = map int_of_digits (findall match_listen b),
               server_names = first_split (findall match_server_name b)\<rparr>
         \<and> (\<forall>g\<in>set (findall match_listen b). length g \<le> max_str_digits)"
proof -
  from assms obtain vs where vs: "py_ints (findall match_listen b) = Inr vs"
    and s: "s = \<lparr>ports = vs, server_names = first_split (findall match_server_name b)\<rparr>"
    by (auto simp: parse_block_def first_split_def Let_def split: sum.splits)
  from py_ints_Inr [OF vs] show ?thesis using s by simp
qed

lemma parse_block_long:
  assumes "g \<in> set (findall match_listen b)" and "\<not> length g \<le> max_str_digits"
  shows "\<exists>msg. parse_block b = Inl msg"
proof (cases "parse_block b")
  case (Inl msg)
  then show ?thesis by blast
next
  case (Inr s)
  then show ?thesis using parse_block_Inr assms by blast
qed

lemma parse_blocks_short:
  "\<forall>b\<in>set bs. \<forall>g\<in>set (findall match_listen b). length g \<le> max_str_digits \<Longrightarrow>
     parse_blocks bs =
       Inr (map (\<lambda>b. \<lparr>ports = map int_of_digits (findall match_listen b),
                       server_names = first_split (findall match_server_name b)\<rparr>) bs)"
  by (induction bs) (simp_all add: parse_block_short)

lemma parse_blocks_Inr:
  "parse_blocks bs = Inr servers \<Longrightarrow>
     servers = map (\<lambda>b. \<lparr>ports = map int_of_digits (findall match_listen b),
                          server_names = first_split (findall match_server_name b)\<rparr>) bs
     \<and> (\<forall>b\<in>set bs. \<forall>g\<in>set (findall match_listen b). length g \<le> max_str_digits)"
proof (induction bs arbitrary: servers)
  case Nil
  then show ?case by simp
next
  case (Cons b bs)
  from Cons.prems obtain s ss where s: "parse_block b = Inr s" and ss: "parse_blocks bs = Inr ss"
    and servers: "servers = s # ss"
    by (auto split: sum.splits)
  show ?case using parse_block_Inr [OF s] Cons.IH [OF ss] servers by simp
qed

lemma parse_blocks_long:
  assumes "b \<in> set bs" and "g \<in> set (findall match_listen b)"
    and "\<not> length g \<le> max_str_digits"
  shows "\<exists>msg. parse_blocks bs = Inl msg"
proof (cases "parse_blocks bs")
  case (Inl msg)
  then show ?thesis by blast
next
  case (Inr servers)
  then show ?thesis using parse_blocks_Inr assms by blast
qed

lemma parse_text_short:
  assumes "\<forall>g\<in>set (listen_groups c). length g \<le> max_str_digits"
  shows "\<exists>servers. parse_text c = Inr servers"
proof -
  have "\<forall>b\<in>set (tl (re_split match_open [] c)).
          \<forall>g\<in>set (findall match_listen b). length g \<le> max_str_digits"
    using assms by (auto simp: listen_groups_def)
  from parse_blocks_short [OF this] show ?thesis by (simp add: parse_text_def)
qed

lemma parse_text_long:
  assumes "g \<in> set (listen_groups c)" and "\<not> length g \<le> max_str_digits"
  shows "\<exists>msg. parse_text c = Inl msg"
proof -
  from assms(1) obtain b where "b \<in> set (tl (re_split match_open [] c))"
    and "g \<in> set (findall match_listen b)"
    by (auto simp: listen_groups_def)
  then show ?thesis using parse_blocks_long assms(2) by (simp add: parse_text_def)
qed







section \<open>Parsing a well-formed configuration\<close>

lemma strip_prefix_Some: "strip_prefix p s = Some r \<Longrightarrow> s = p @ r"
  by (induction p s rule: strip_prefix.induct) (auto split: if_splits)

lemma strip_prefix_append: "strip_prefix p (p @ r) = Some r"
  by (induction p) simp_all

lemma match_open_shape:
  assumes "match_open s = Some r"
  shows "\<exists>ws. s = ''server'' @ ws @ CHR ''{'' # r \<and> (\<forall>c\<in>set ws. is_space c)"
proof -
  from assms obtain r0 where sp: "strip_prefix ''server'' s = Some r0"
    and dw: "dropWhile is_space r0 = CHR ''{'' # r"
    by (auto simp: match_open_def split: option.splits list.splits if_splits)
  have "r0 = takeWhile is_space r0 @ dropWhile is_space r0" by simp
  with dw have "r0 = takeWhile is_space r0 @ CHR ''{'' # r" by simp
  moreover have "s = ''server'' @ r0" using sp by (rule strip_prefix_Some)
  moreover have "\<forall>c\<in>set (takeWhile is_space r0). is_space c" by (auto dest: set_takeWhileD)
  ultimately show ?thesis by blast
qed

lemma takeWhile_upto: "y \<notin> set p \<Longrightarrow> takeWhile (\<lambda>c. c \<noteq> y) (p @ y # r) = p"
  by (induction p) auto

lemma takeWhile_past:
  "y \<notin> set u \<Longrightarrow> takeWhile (\<lambda>c. c \<noteq> y) (u @ v) = u @ takeWhile (\<lambda>c. c \<noteq> y) v"
  by (induction u) auto

lemma before_first:
  assumes "u @ x # v = p @ y # r" and "y \<notin> set u" and "x \<noteq> y" and "y \<notin> set p"
  shows "x \<in> set p"
proof -
  have "takeWhile (\<lambda>c. c \<noteq> y) (u @ x # v) = u @ x # takeWhile (\<lambda>c. c \<noteq> y) v"
    using assms(2,3) by (simp add: takeWhile_past)
  moreover have "takeWhile (\<lambda>c. c \<noteq> y) (p @ y # r) = p"
    using assms(4) by (rule takeWhile_upto)
  ultimately have "p = u @ x # takeWhile (\<lambda>c. c \<noteq> y) v" using assms(1) by simp
  then show ?thesis by simp
qed

lemma match_open_None:
  assumes "CHR ''{'' \<notin> set u" and "x \<notin> set ''server''" and "\<not> is_space x" and "x \<noteq> CHR ''{''"
  shows "match_open (u @ x # rest) = None"
proof (cases "match_open (u @ x # rest)")
  case None
  then show ?thesis .
next
  case (Some r)
  from match_open_shape [OF Some] obtain ws
    where eq0: "u @ x # rest = ''server'' @ ws @ CHR ''{'' # r" and ws: "\<forall>c\<in>set ws. is_space c"
    by blast
  from eq0 have eq: "u @ x # rest = (''server'' @ ws) @ CHR ''{'' # r" by simp
  have nsp: "\<not> is_space (CHR ''{'')" by (simp add: is_space_def)
  have "CHR ''{'' \<notin> set ''server''" by simp
  with nsp ws have "CHR ''{'' \<notin> set (''server'' @ ws)"
    unfolding set_append Un_iff by blast
  from before_first [OF eq assms(1) assms(4) this] have "x \<in> set (''server'' @ ws)" .
  then have "x \<in> set ''server'' \<or> x \<in> set ws" unfolding set_append Un_iff .
  with assms(2,3) ws show ?thesis by blast
qed

lemma re_split_skip:
  assumes "CHR ''{'' \<notin> set u" and "x \<notin> set ''server''" and "\<not> is_space x" and "x \<noteq> CHR ''{''"
  shows "re_split match_open acc (u @ x # rest) = re_split match_open (acc @ u @ [x]) rest"
  using assms(1)
proof (induction u arbitrary: acc)
  case Nil
  have "match_open (x # rest) = None"
    using match_open_None [of "[]" x rest] assms by simp
  then show ?case by simp
next
  case (Cons c u)
  have "match_open ((c # u) @ x # rest) = None"
    using match_open_None [of "c # u" x rest] Cons.prems assms by simp
  then show ?case using Cons by simp
qed

lemma match_open_first: "c \<noteq> CHR ''s'' \<Longrightarrow> match_open (c # rest) = None"
  by (simp add: match_open_def)

lemma re_split_skip_pre:
  "CHR ''s'' \<notin> set pre \<Longrightarrow> re_split match_open acc (pre @ rest) = re_split match_open (acc @ pre) rest"
proof (induction pre arbitrary: acc)
  case Nil
  show ?case by simp
next
  case (Cons c pre)
  then have "match_open (c # pre @ rest) = None" by (auto intro: match_open_first)
  then show ?case using Cons by simp
qed

lemma set_join: "c \<in> set (join sep xs) \<Longrightarrow> c \<in> set sep \<or> (\<exists>x\<in>set xs. c \<in> set x)"
  by (induction sep xs rule: join.induct) auto

lemma is_digit_not_brace: "is_digit c \<Longrightarrow> c \<noteq> CHR ''{'' \<and> c \<noteq> CHR '';'' \<and> c \<noteq> CHR ''s''"
  by (auto simp: is_digit_def)

lemma names_chars:
  assumes "\<forall>n\<in>set ns. name_ok n" and "c \<in> set (join '' '' ns)"
  shows "c \<noteq> CHR ''{'' \<and> c \<noteq> CHR '';''"
proof -
  from set_join [OF assms(2)] have "c = CHR '' '' \<or> (\<exists>n\<in>set ns. c \<in> set n)" by simp
  then show ?thesis using assms(1) by (auto simp: name_ok_def)
qed

lemma space_chars:
  "is_space c \<Longrightarrow> c \<noteq> CHR ''{'' \<and> c \<noteq> CHR '';'' \<and> c \<noteq> CHR ''s'' \<and> c \<noteq> CHR ''l'' \<and> c \<noteq> CHR ''}''"
  by (auto simp: is_space_def)

lemma all_space_chars:
  assumes "all_space s"
  shows "CHR ''{'' \<notin> set s" and "CHR '';'' \<notin> set s" and "CHR ''s'' \<notin> set s"
    and "CHR ''l'' \<notin> set s" and "CHR ''}'' \<notin> set s"
  using assms space_chars unfolding all_space_def by blast+

lemma directive_shape:
  assumes "names_ok d"
  shows "\<exists>u. render_directive d = u @ [CHR '';''] \<and> CHR ''{'' \<notin> set u \<and> CHR '';'' \<notin> set u"
proof (cases d)
  case (Listen n)
  have "CHR ''{'' \<notin> set (str_nat n) \<and> CHR '';'' \<notin> set (str_nat n)"
    using str_nat_digits is_digit_not_brace by blast
  then have "CHR ''{'' \<notin> set (''listen '' @ str_nat n) \<and> CHR '';'' \<notin> set (''listen '' @ str_nat n)"
    by simp
  moreover have "render_directive d = (''listen '' @ str_nat n) @ [CHR '';'']"
    using Listen by simp
  ultimately show ?thesis by blast
next
  case (ServerName ns)
  with assms have ok: "\<forall>n\<in>set ns. name_ok n" by simp
  have "CHR ''{'' \<notin> set (join '' '' ns) \<and> CHR '';'' \<notin> set (join '' '' ns)"
    using names_chars [OF ok] by blast
  then have "CHR ''{'' \<notin> set (''server_name '' @ join '' '' ns)
             \<and> CHR '';'' \<notin> set (''server_name '' @ join '' '' ns)"
    by simp
  moreover have "render_directive d = (''server_name '' @ join '' '' ns) @ [CHR '';'']"
    using ServerName by simp
  ultimately show ?thesis by blast
qed

lemma re_split_directive:
  assumes "names_ok d" and "all_space sep"
  shows "re_split match_open acc (sep @ render_directive d @ rest)
           = re_split match_open (acc @ sep @ render_directive d) rest"
proof -
  from directive_shape [OF assms(1)] obtain u
    where u: "render_directive d = u @ [CHR '';'']" and nb: "CHR ''{'' \<notin> set u"
    by blast
  have nb': "CHR ''{'' \<notin> set (sep @ u)" using nb all_space_chars(1) [OF assms(2)] by simp
  have "re_split match_open acc ((sep @ u) @ CHR '';'' # rest)
          = re_split match_open (acc @ (sep @ u) @ [CHR '';'']) rest"
    by (rule re_split_skip [OF nb']) (simp_all add: is_space_def)
  then show ?thesis by (simp add: u)
qed

lemma render_items_Cons:
  "render_items ((sep, d) # its) @ rest = sep @ render_directive d @ (render_items its @ rest)"
  by (simp add: render_items_def)

lemma re_split_items:
  "\<forall>(sep, d)\<in>set its. all_space sep \<and> names_ok d \<Longrightarrow>
     re_split match_open acc (render_items its @ rest)
       = re_split match_open (acc @ render_items its) rest"
proof (induction its arbitrary: acc)
  case Nil
  show ?case by (simp add: render_items_def)
next
  case (Cons it its)
  obtain sep d where it: "it = (sep, d)" by (cases it)
  from Cons.prems it have ok: "names_ok d" "all_space sep"
    and rest_ok: "\<forall>(sep, d)\<in>set its. all_space sep \<and> names_ok d"
    by simp_all
  have "re_split match_open acc (render_items ((sep, d) # its) @ rest)
          = re_split match_open acc (sep @ render_directive d @ (render_items its @ rest))"
    by (simp only: render_items_Cons)
  also have "\<dots> = re_split match_open (acc @ sep @ render_directive d) (render_items its @ rest)"
    using ok by (rule re_split_directive)
  also have "\<dots> = re_split match_open ((acc @ sep @ render_directive d) @ render_items its) rest"
    using rest_ok by (rule Cons.IH)
  also have "(acc @ sep @ render_directive d) @ render_items its
               = acc @ render_items ((sep, d) # its)"
    by (simp add: render_items_def)
  finally show ?case by (simp only: it)
qed

lemma re_split_closing:
  assumes "all_space cl" and "all_space tr"
  shows "re_split match_open acc (cl @ ''}'' @ tr @ rest)
           = re_split match_open (acc @ cl @ ''}'' @ tr) rest"
proof -
  have "re_split match_open acc (cl @ CHR ''}'' # (tr @ rest))
          = re_split match_open (acc @ cl @ [CHR ''}'']) (tr @ rest)"
    by (rule re_split_skip [OF all_space_chars(1) [OF assms(1)]]) (simp_all add: is_space_def)
  also have "\<dots> = re_split match_open ((acc @ cl @ [CHR ''}'']) @ tr) rest"
    by (rule re_split_skip_pre [OF all_space_chars(3) [OF assms(2)]])
  finally show ?thesis by simp
qed

lemma re_split_body:
  assumes "block_shaped b"
  shows "re_split match_open acc (render_body b @ rest)
           = re_split match_open (acc @ render_body b) rest"
proof -
  from assms have its: "\<forall>(sep, d)\<in>set (items b). all_space sep \<and> names_ok d"
    and cl: "all_space (closing b)" and tr: "all_space (trailer b)"
    by (simp_all add: block_shaped_def)
  have "re_split match_open acc (render_body b @ rest)
          = re_split match_open acc
              (render_items (items b) @ (closing b @ ''}'' @ trailer b @ rest))"
    by (simp add: render_body_def)
  also have "\<dots> = re_split match_open (acc @ render_items (items b))
                       (closing b @ ''}'' @ trailer b @ rest)"
    using its by (rule re_split_items)
  also have "\<dots> = re_split match_open
                       ((acc @ render_items (items b)) @ closing b @ ''}'' @ trailer b) rest"
    using cl tr by (rule re_split_closing)
  finally show ?thesis by (simp add: render_body_def)
qed

lemma match_open_block:
  assumes "all_space g"
  shows "match_open (''server'' @ g @ ''{'' @ r) = Some r"
proof -
  have "dropWhile is_space (g @ CHR ''{'' # r) = dropWhile is_space (CHR ''{'' # r)"
    using assms by (intro dropWhile_append2) (simp add: all_space_def)
  then have dw: "dropWhile is_space (g @ CHR ''{'' # r) = CHR ''{'' # r"
    by (simp add: is_space_def)
  have "strip_prefix ''server'' (''server'' @ (g @ CHR ''{'' # r)) = Some (g @ CHR ''{'' # r)"
    by (rule strip_prefix_append)
  then have sp: "strip_prefix ''server'' (''server'' @ g @ ''{'' @ r) = Some (g @ CHR ''{'' # r)"
    by simp
  show ?thesis unfolding match_open_def sp using dw by simp
qed

lemma re_split_hit:
  assumes "m (c # pre @ rest) = Some rest"
  shows "re_split m acc (c # pre @ rest) = acc # re_split m [] rest"
  using assms by simp

lemma re_split_block:
  assumes "block_shaped b"
  shows "re_split match_open acc (render_block b @ rest)
           = acc # re_split match_open (render_body b) rest"
proof -
  let ?r = "render_body b @ rest"
  have g: "all_space (gap b)" using assms by (simp add: block_shaped_def)
  have whole: "render_block b @ rest = CHR ''s'' # (''erver'' @ gap b @ ''{'') @ ?r"
    by (simp add: render_block_def)
  have "match_open (''server'' @ gap b @ ''{'' @ ?r) = Some ?r"
    using g by (rule match_open_block)
  then have "match_open (CHR ''s'' # (''erver'' @ gap b @ ''{'') @ ?r) = Some ?r"
    by simp
  then have "re_split match_open acc (CHR ''s'' # (''erver'' @ gap b @ ''{'') @ ?r)
               = acc # re_split match_open [] ?r"
    by (rule re_split_hit)
  also have "re_split match_open [] ?r = re_split match_open ([] @ render_body b) rest"
    using assms by (rule re_split_body)
  finally show ?thesis by (simp only: whole append_Nil)
qed

lemma re_split_blocks:
  "\<forall>b\<in>set blocks. block_shaped b \<Longrightarrow>
     re_split match_open acc (concat (map render_block blocks)) = acc # map render_body blocks"
proof (induction blocks arbitrary: acc)
  case Nil
  show ?case by simp
next
  case (Cons b blocks)
  have "re_split match_open acc (render_block b @ concat (map render_block blocks))
          = acc # re_split match_open (render_body b) (concat (map render_block blocks))"
    by (rule re_split_block) (use Cons.prems in simp)
  also have "re_split match_open (render_body b) (concat (map render_block blocks))
               = render_body b # map render_body blocks"
    by (rule Cons.IH) (use Cons.prems in simp)
  finally show ?case by simp
qed

lemma blocks_of_config:
  assumes "CHR ''s'' \<notin> set pre" and "\<forall>b\<in>set blocks. block_shaped b"
  shows "tl (re_split match_open [] (render_config pre blocks)) = map render_body blocks"
proof -
  have "re_split match_open [] (pre @ concat (map render_block blocks))
          = re_split match_open ([] @ pre) (concat (map render_block blocks))"
    using assms(1) by (rule re_split_skip_pre)
  also have "\<dots> = ([] @ pre) # map render_body blocks"
    using assms(2) by (rule re_split_blocks)
  finally show ?thesis by (simp add: render_config_def)
qed

lemma findall_hit:
  assumes "m (c # pre @ rest) = Some (g, rest)"
  shows "findall m (c # pre @ rest) = g # findall m rest"
  using assms by simp

lemma findall_miss: "m (c # rest) = None \<Longrightarrow> findall m (c # rest) = findall m rest"
  by simp

lemma match_listen_shape:
  assumes "match_listen s = Some (g, r)"
  shows "\<exists>ws. s = ''listen'' @ ws @ g @ CHR '';'' # r \<and> ws \<noteq> [] \<and> (\<forall>c\<in>set ws. is_space c)
              \<and> g \<noteq> [] \<and> (\<forall>c\<in>set g. is_digit c)"
proof -
  from assms obtain r0 where sp: "strip_prefix ''listen'' s = Some r0"
    by (auto simp: match_listen_def split: option.splits)
  let ?ws = "takeWhile is_space r0"
  let ?r1 = "dropWhile is_space r0"
  from assms sp have ws: "?ws \<noteq> []"
    by (auto simp: match_listen_def split: if_splits)
  from assms sp ws have g: "g = takeWhile is_digit ?r1" and gne: "g \<noteq> []"
    and dw: "dropWhile is_digit ?r1 = CHR '';'' # r"
    by (auto simp: match_listen_def Let_def split: if_splits list.splits)
  have "?r1 = takeWhile is_digit ?r1 @ dropWhile is_digit ?r1" by simp
  with g dw have r1: "?r1 = g @ CHR '';'' # r" by simp
  have "r0 = ?ws @ ?r1" by simp
  with r1 have "r0 = ?ws @ g @ CHR '';'' # r" by simp
  moreover have "s = ''listen'' @ r0" using sp by (rule strip_prefix_Some)
  moreover have "\<forall>c\<in>set ?ws. is_space c" by (auto dest: set_takeWhileD)
  moreover have "\<forall>c\<in>set g. is_digit c" unfolding g by (auto dest: set_takeWhileD)
  ultimately show ?thesis using ws gne by blast
qed

lemma match_listen_first: "c \<noteq> CHR ''l'' \<Longrightarrow> match_listen (c # rest) = None"
  by (simp add: match_listen_def)

lemma digits_then:
  assumes "\<forall>c\<in>set ds. is_digit c" and "\<not> is_digit x"
  shows "takeWhile is_digit (ds @ x # t) = ds" and "dropWhile is_digit (ds @ x # t) = x # t"
  using assms by (induction ds) auto

lemma no_space_then:
  assumes "ds \<noteq> []" and "\<not> is_space (hd ds)"
  shows "takeWhile is_space (ds @ t) = []" and "dropWhile is_space (ds @ t) = ds @ t"
  using assms by (cases ds; simp)+

lemma match_listen_directive:
  "match_listen (''listen '' @ str_nat n @ '';'' @ rest) = Some (str_nat n, rest)"
proof -
  have dig: "\<forall>c\<in>set (str_nat n). is_digit c" using str_nat_digits by blast
  have ne: "str_nat n \<noteq> []" by (rule str_nat_nonempty)
  then have "hd (str_nat n) \<in> set (str_nat n)" by simp
  then have hd: "\<not> is_space (hd (str_nat n))" using dig is_digit_not_space by blast
  have semi: "\<not> is_digit (CHR '';'')" by (simp add: is_digit_def)
  have sp: "strip_prefix ''listen'' (''listen '' @ str_nat n @ '';'' @ rest)
              = Some ('' '' @ str_nat n @ '';'' @ rest)"
    by simp
  show ?thesis
    unfolding match_listen_def sp
    using no_space_then [OF ne hd, of "CHR '';'' # rest"]
      digits_then [OF dig semi, of rest] ne
    by (simp add: is_space_blank Let_def)
qed

lemma findall_listen_directive:
  "findall match_listen (''listen '' @ str_nat n @ '';'' @ rest)
     = str_nat n # findall match_listen rest"
proof -
  have "findall match_listen (CHR ''l'' # (''isten '' @ str_nat n @ '';'') @ rest)
          = str_nat n # findall match_listen rest"
    by (rule findall_hit) (use match_listen_directive [of n rest] in simp)
  then show ?thesis by simp
qed

lemma takeWhile_stop: "\<forall>c\<in>set u. P c \<Longrightarrow> \<not> P x \<Longrightarrow> takeWhile P (u @ x # v) = u"
  by (induction u) auto

lemma last_token:
  assumes "is_space sp" and "\<forall>c\<in>set t. \<not> is_space c"
  shows "takeWhile (\<lambda>c. \<not> is_space c) (rev (a @ sp # t)) = rev t"
proof -
  have "takeWhile (\<lambda>c. \<not> is_space c) (rev t @ sp # rev a) = rev t"
    using assms by (intro takeWhile_stop) auto
  then show ?thesis by simp
qed

lemma match_listen_token:
  assumes "match_listen (z @ sp # t @ CHR '';'' # rest) = Some (g, r)"
    and "CHR '';'' \<notin> set z" and "is_space sp" and "\<forall>c\<in>set t. \<not> is_space c \<and> c \<noteq> CHR '';''"
  shows "t = g"
proof -
  from match_listen_shape [OF assms(1)] obtain ws
    where eq: "z @ sp # t @ CHR '';'' # rest = ''listen'' @ ws @ g @ CHR '';'' # r"
      and ws: "ws \<noteq> []" "\<forall>c\<in>set ws. is_space c" and g: "\<forall>c\<in>set g. is_digit c"
    by blast
  have nsemi: "\<not> is_space (CHR '';'')" by (simp add: is_space_def)
  have l: "CHR '';'' \<notin> set (z @ sp # t)" using assms(2,3,4) nsemi by auto
  have "CHR '';'' \<notin> set ''listen''" by simp
  moreover have "CHR '';'' \<notin> set ws" using ws(2) nsemi by blast
  moreover have "CHR '';'' \<notin> set g" using g is_digit_not_brace by blast
  ultimately have rr: "CHR '';'' \<notin> set (''listen'' @ ws @ g)"
    unfolding set_append Un_iff by blast
  have "takeWhile (\<lambda>c. c \<noteq> CHR '';'') ((z @ sp # t) @ CHR '';'' # rest) = z @ sp # t"
    using l by (rule takeWhile_upto)
  moreover have "takeWhile (\<lambda>c. c \<noteq> CHR '';'') ((''listen'' @ ws @ g) @ CHR '';'' # r)
                   = ''listen'' @ ws @ g"
    using rr by (rule takeWhile_upto)
  ultimately have same: "z @ sp # t = (''listen'' @ butlast ws) @ last ws # g"
    using eq ws(1) by (simp del: takeWhile_append2)
  have "takeWhile (\<lambda>c. \<not> is_space c) (rev (z @ sp # t)) = rev t"
    using assms(3,4) by (intro last_token) auto
  moreover have "takeWhile (\<lambda>c. \<not> is_space c) (rev ((''listen'' @ butlast ws) @ last ws # g)) = rev g"
    using ws g is_digit_not_space by (intro last_token) auto
  ultimately have "rev t = rev g" using same by simp
  then show ?thesis by simp
qed

lemma match_listen_no_space:
  assumes "\<forall>c\<in>set t. \<not> is_space c \<and> c \<noteq> CHR '';''"
  shows "match_listen (t @ CHR '';'' # rest) = None"
proof (cases "match_listen (t @ CHR '';'' # rest)")
  case None
  then show ?thesis .
next
  case (Some a)
  obtain g r where a: "a = (g, r)" by (cases a)
  from Some a have m: "match_listen (t @ CHR '';'' # rest) = Some (g, r)" by simp
  from match_listen_shape [OF m] obtain ws
    where eq0: "t @ CHR '';'' # rest = ''listen'' @ ws @ g @ CHR '';'' # r"
      and ws: "ws \<noteq> []" "\<forall>c\<in>set ws. is_space c"
    by blast
  from ws(1) obtain ws' x where wsx: "ws = ws' @ [x]" by (metis rev_exhaust)
  have x: "is_space x" using ws(2) wsx by simp
  have ws': "\<forall>c\<in>set ws'. is_space c" using ws(2) wsx by simp
  have eq: "(''listen'' @ ws') @ x # (g @ CHR '';'' # r) = t @ CHR '';'' # rest"
    using eq0 wsx by simp
  have nsemi: "\<not> is_space (CHR '';'')" by (simp add: is_space_def)
  have t: "CHR '';'' \<notin> set t" using assms by blast
  have "CHR '';'' \<notin> set ''listen''" by simp
  moreover have "CHR '';'' \<notin> set ws'" using ws' nsemi by blast
  ultimately have u: "CHR '';'' \<notin> set (''listen'' @ ws')"
    unfolding set_append Un_iff by blast
  have "x \<noteq> CHR '';''" using x nsemi by blast
  from before_first [OF eq u this t] have "x \<in> set t" .
  then show ?thesis using x assms by blast
qed

lemma findall_listen_no_space:
  "\<forall>c\<in>set t. \<not> is_space c \<and> c \<noteq> CHR '';'' \<Longrightarrow>
     findall match_listen (t @ CHR '';'' # rest) = findall match_listen rest"
proof (induction t)
  case Nil
  have "match_listen (CHR '';'' # rest) = None" by (rule match_listen_first) simp
  then show ?case by simp
next
  case (Cons c t)
  have "match_listen ((c # t) @ CHR '';'' # rest) = None"
    using Cons.prems by (rule match_listen_no_space)
  then show ?case using Cons by simp
qed

lemma findall_listen_before_token:
  assumes "is_space sp" and "\<forall>c\<in>set t. \<not> is_space c \<and> c \<noteq> CHR '';''"
    and "\<exists>c\<in>set t. \<not> is_digit c"
  shows "CHR '';'' \<notin> set z \<Longrightarrow>
     findall match_listen (z @ sp # t @ CHR '';'' # rest) = findall match_listen rest"
proof (induction z)
  case Nil
  have "sp \<noteq> CHR ''l''" using assms(1) by (auto simp: is_space_def)
  then have "match_listen (sp # t @ CHR '';'' # rest) = None" by (rule match_listen_first)
  then show ?case using findall_listen_no_space [OF assms(2), of rest] by simp
next
  case (Cons c z)
  have "match_listen ((c # z) @ sp # t @ CHR '';'' # rest) = None"
  proof (cases "match_listen ((c # z) @ sp # t @ CHR '';'' # rest)")
    case None
    then show ?thesis .
  next
    case (Some a)
    obtain g r where a: "a = (g, r)" by (cases a)
    with Some have m: "match_listen ((c # z) @ sp # t @ CHR '';'' # rest) = Some (g, r)" by simp
    from match_listen_token [OF m Cons.prems assms(1,2)] have "t = g" .
    moreover from match_listen_digits [OF m] have "\<forall>c\<in>set g. is_digit c" by blast
    ultimately show ?thesis using assms(3) by blast
  qed
  then show ?case using Cons by simp
qed

lemma join_last:
  "ns \<noteq> [] \<Longrightarrow> \<exists>z. x0 @ CHR '' '' # join '' '' ns = z @ CHR '' '' # last ns"
proof (induction ns arbitrary: x0 rule: induct_list012)
  case 1
  then show ?case by simp
next
  case (2 x)
  show ?case by simp
next
  case (3 x y ys)
  from "3.IH"(2) [of "x0 @ CHR '' '' # x"] obtain z
    where "(x0 @ CHR '' '' # x) @ CHR '' '' # join '' '' (y # ys) = z @ CHR '' '' # last (y # ys)"
    by blast
  then have "x0 @ CHR '' '' # join '' '' (x # y # ys) = z @ CHR '' '' # last (x # y # ys)"
    by simp
  then show ?case by blast
qed

lemma findall_listen_skip:
  "CHR ''l'' \<notin> set u \<Longrightarrow> findall match_listen (u @ rest) = findall match_listen rest"
proof (induction u)
  case Nil
  show ?case by simp
next
  case (Cons c u)
  then have "match_listen (c # u @ rest) = None" by (auto intro: match_listen_first)
  then show ?case using Cons by simp
qed

lemma findall_listen_names:
  assumes "ns \<noteq> []" and "\<forall>n\<in>set ns. name_ok n" and "all_space sep"
  shows "findall match_listen (sep @ render_directive (ServerName ns) @ rest)
           = findall match_listen rest"
proof -
  from join_last [OF assms(1), of "sep @ ''server_name''"] obtain z
    where z: "(sep @ ''server_name'') @ CHR '' '' # join '' '' ns = z @ CHR '' '' # last ns"
    by blast
  have "CHR '';'' \<notin> set (join '' '' ns)" using names_chars [OF assms(2)] by blast
  then have "CHR '';'' \<notin> set ((sep @ ''server_name'') @ CHR '' '' # join '' '' ns)"
    using all_space_chars(2) [OF assms(3)] by simp
  then have "CHR '';'' \<notin> set (z @ CHR '' '' # last ns)" unfolding z .
  then have nz: "CHR '';'' \<notin> set z" by simp
  have ok: "name_ok (last ns)" using assms by simp
  have t1: "\<forall>c\<in>set (last ns). \<not> is_space c \<and> c \<noteq> CHR '';''"
    using ok by (simp add: name_ok_def)
  have t2: "\<exists>c\<in>set (last ns). \<not> is_digit c"
    using ok by (simp add: name_ok_def)
  have f: "findall match_listen (z @ CHR '' '' # last ns @ CHR '';'' # rest)
             = findall match_listen rest"
    using is_space_blank t1 t2 nz by (rule findall_listen_before_token)
  have "sep @ render_directive (ServerName ns) @ rest
          = ((sep @ ''server_name'') @ CHR '' '' # join '' '' ns) @ CHR '';'' # rest"
    by simp
  also have "\<dots> = (z @ CHR '' '' # last ns) @ CHR '';'' # rest"
    by (simp only: z)
  also have "\<dots> = z @ CHR '' '' # last ns @ CHR '';'' # rest"
    by simp
  finally show ?thesis by (simp only: f)
qed

lemma findall_listen_port:
  assumes "all_space sep"
  shows "findall match_listen (sep @ render_directive (Listen n) @ rest)
           = str_nat n # findall match_listen rest"
proof -
  have "findall match_listen (sep @ (''listen '' @ str_nat n @ '';'' @ rest))
          = findall match_listen (''listen '' @ str_nat n @ '';'' @ rest)"
    by (rule findall_listen_skip [OF all_space_chars(4) [OF assms]])
  also have "\<dots> = str_nat n # findall match_listen rest"
    by (rule findall_listen_directive)
  finally show ?thesis by simp
qed

lemma findall_listen_items:
  "\<forall>(sep, d)\<in>set its. all_space sep \<and> names_ok d \<Longrightarrow>
     findall match_listen (render_items its @ rest)
       = map str_nat (listen_numbers (map snd its)) @ findall match_listen rest"
proof (induction its)
  case Nil
  show ?case by (simp add: render_items_def)
next
  case (Cons it its)
  obtain sep d where it: "it = (sep, d)" by (cases it)
  from Cons.prems it have ok: "names_ok d" and sp: "all_space sep"
    and rest_ok: "\<forall>(sep, d)\<in>set its. all_space sep \<and> names_ok d"
    by simp_all
  have ih: "findall match_listen (render_items its @ rest)
              = map str_nat (listen_numbers (map snd its)) @ findall match_listen rest"
    using rest_ok by (rule Cons.IH)
  show ?case
  proof (cases d)
    case (Listen n)
    have "findall match_listen (render_items ((sep, Listen n) # its) @ rest)
            = findall match_listen (sep @ render_directive (Listen n) @ (render_items its @ rest))"
      by (simp only: render_items_Cons)
    also have "\<dots> = str_nat n # findall match_listen (render_items its @ rest)"
      using sp by (rule findall_listen_port)
    also have "\<dots> = map str_nat (listen_numbers (map snd ((sep, Listen n) # its)))
                       @ findall match_listen rest"
      by (simp add: ih)
    finally show ?thesis by (simp only: it Listen)
  next
    case (ServerName ns)
    with ok have nok: "ns \<noteq> []" "\<forall>n\<in>set ns. name_ok n" by simp_all
    have "findall match_listen (render_items ((sep, ServerName ns) # its) @ rest)
            = findall match_listen
                (sep @ render_directive (ServerName ns) @ (render_items its @ rest))"
      by (simp only: render_items_Cons)
    also have "\<dots> = findall match_listen (render_items its @ rest)"
      using nok sp by (rule findall_listen_names)
    also have "\<dots> = map str_nat (listen_numbers (map snd ((sep, ServerName ns) # its)))
                       @ findall match_listen rest"
      by (simp add: ih)
    finally show ?thesis by (simp only: it ServerName)
  qed
qed

lemma findall_listen_closing:
  assumes "all_space cl" and "all_space tr"
  shows "findall match_listen (cl @ ''}'' @ tr) = []"
proof -
  have "CHR ''l'' \<notin> set (cl @ ''}'' @ tr)"
    using all_space_chars(4) [OF assms(1)] all_space_chars(4) [OF assms(2)] by simp
  from findall_listen_skip [OF this, of "[]"] show ?thesis by simp
qed

lemma listen_of_body:
  assumes "block_shaped b"
  shows "findall match_listen (render_body b) = map str_nat (listen_numbers (map snd (items b)))"
proof -
  from assms have its: "\<forall>(sep, d)\<in>set (items b). all_space sep \<and> names_ok d"
    and cl: "all_space (closing b)" and tr: "all_space (trailer b)"
    by (simp_all add: block_shaped_def)
  have "findall match_listen (render_items (items b) @ (closing b @ ''}'' @ trailer b))
          = map str_nat (listen_numbers (map snd (items b)))
              @ findall match_listen (closing b @ ''}'' @ trailer b)"
    using its by (rule findall_listen_items)
  then show ?thesis
    by (simp only: findall_listen_closing [OF cl tr] render_body_def append_Nil2)
qed

lemma match_server_name_first: "c \<noteq> CHR ''s'' \<Longrightarrow> match_server_name (c # rest) = None"
  by (simp add: match_server_name_def)

lemma findall_names_skip:
  "CHR ''s'' \<notin> set u \<Longrightarrow> findall match_server_name (u @ rest) = findall match_server_name rest"
proof (induction u)
  case Nil
  show ?case by simp
next
  case (Cons c u)
  then have "match_server_name (c # u @ rest) = None" by (auto intro: match_server_name_first)
  then show ?case using Cons by simp
qed

lemma findall_names_port:
  assumes "all_space sep"
  shows "findall match_server_name (sep @ render_directive (Listen n) @ rest)
           = findall match_server_name rest"
proof -
  have "CHR ''s'' \<notin> set (str_nat n @ '';'')"
    using str_nat_digits is_digit_not_brace by auto
  then have d: "findall match_server_name ((str_nat n @ '';'') @ rest)
                  = findall match_server_name rest"
    by (rule findall_names_skip)
  have "findall match_server_name (sep @ (''listen '' @ str_nat n @ '';'' @ rest))
          = findall match_server_name (''listen '' @ str_nat n @ '';'' @ rest)"
    by (rule findall_names_skip [OF all_space_chars(3) [OF assms]])
  also have "\<dots> = findall match_server_name ((str_nat n @ '';'') @ rest)"
    by (simp add: match_server_name_def)
  finally show ?thesis using d by simp
qed

lemma hd_join: "n \<noteq> [] \<Longrightarrow> hd (join sep (n # ns)) = hd n"
  by (cases ns) simp_all

lemma join_nonempty: "n \<noteq> [] \<Longrightarrow> join sep (n # ns) \<noteq> []"
  by (cases ns) simp_all

lemma match_server_name_directive:
  assumes "ns \<noteq> []" and "\<forall>n\<in>set ns. name_ok n"
  shows "match_server_name (render_directive (ServerName ns) @ rest) = Some (join '' '' ns, rest)"
proof -
  let ?j = "join '' '' ns"
  from assms(1) obtain n ns' where ns: "ns = n # ns'" by (cases ns) auto
  have n: "name_ok n" using assms(2) ns by simp
  then have nne: "n \<noteq> []" by (simp add: name_ok_def)
  have jne: "?j \<noteq> []" unfolding ns using nne by (rule join_nonempty)
  have "hd ?j = hd n" unfolding ns using nne by (rule hd_join)
  moreover have "hd n \<in> set n" using nne by simp
  ultimately have hd: "\<not> is_space (hd ?j)" using n by (simp add: name_ok_def)
  have semi: "\<forall>c\<in>set ?j. c \<noteq> CHR '';''" using names_chars [OF assms(2)] by blast
  have tw: "takeWhile (\<lambda>c. c \<noteq> CHR '';'') (?j @ CHR '';'' # rest) = ?j"
    using semi by (intro takeWhile_stop) auto
  have dw: "dropWhile (\<lambda>c. c \<noteq> CHR '';'') (?j @ CHR '';'' # rest) = CHR '';'' # rest"
    using semi by (simp add: dropWhile_append2)
  have sp: "strip_prefix ''server_name'' (render_directive (ServerName ns) @ rest)
              = Some ('' '' @ ?j @ CHR '';'' # rest)"
    by simp
  show ?thesis
    unfolding match_server_name_def sp
    using no_space_then [OF jne hd, of "CHR '';'' # rest"] tw dw jne
    by (simp add: is_space_blank Let_def)
qed

lemma names_ok_tokens:
  "\<forall>n\<in>set ns. name_ok n \<Longrightarrow> \<forall>n\<in>set ns. n \<noteq> [] \<and> (\<forall>c\<in>set n. \<not> is_space c)"
  by (simp add: name_ok_def)

lemma first_split_names:
  assumes "ns \<noteq> []" and "\<forall>n\<in>set ns. name_ok n" and "all_space sep"
  shows "first_split (findall match_server_name (sep @ render_directive (ServerName ns) @ rest))
           = ns"
proof -
  obtain c cs where cs: "render_directive (ServerName ns) @ rest = c # cs" by simp
  have m: "match_server_name (c # cs) = Some (join '' '' ns, rest)"
    using match_server_name_directive [OF assms(1,2), of rest] cs by simp
  have "findall match_server_name (sep @ (c # cs)) = findall match_server_name (c # cs)"
    by (rule findall_names_skip [OF all_space_chars(3) [OF assms(3)]])
  also have "\<dots> = join '' '' ns # findall match_server_name (drop (length cs - length rest) cs)"
    using m by simp
  finally have "first_split (findall match_server_name (sep @ (c # cs)))
                  = py_split (join '' '' ns)"
    by (simp add: first_split_def)
  then show ?thesis
    using py_split_join [OF names_ok_tokens [OF assms(2)]] by (simp only: cs)
qed

lemma findall_names_closing:
  assumes "all_space cl" and "all_space tr"
  shows "findall match_server_name (cl @ ''}'' @ tr) = []"
proof -
  have "CHR ''s'' \<notin> set (cl @ ''}'' @ tr)"
    using all_space_chars(3) [OF assms(1)] all_space_chars(3) [OF assms(2)] by simp
  from findall_names_skip [OF this, of "[]"] show ?thesis by simp
qed

lemma names_of_items:
  assumes "all_space cl" and "all_space tr"
  shows "\<forall>(sep, d)\<in>set its. all_space sep \<and> names_ok d \<Longrightarrow>
     first_split (findall match_server_name (render_items its @ (cl @ ''}'' @ tr)))
       = first_names (map snd its)"
proof (induction its)
  case Nil
  show ?case
    using findall_names_closing [OF assms] by (simp add: render_items_def first_split_def)
next
  case (Cons it its)
  let ?rest = "cl @ ''}'' @ tr"
  obtain sep d where it: "it = (sep, d)" by (cases it)
  from Cons.prems it have ok: "names_ok d" and sp: "all_space sep"
    and rest_ok: "\<forall>(sep, d)\<in>set its. all_space sep \<and> names_ok d"
    by simp_all
  have ih: "first_split (findall match_server_name (render_items its @ ?rest))
              = first_names (map snd its)"
    using rest_ok by (rule Cons.IH)
  show ?case
  proof (cases d)
    case (Listen n)
    have "findall match_server_name (render_items ((sep, Listen n) # its) @ ?rest)
            = findall match_server_name
                (sep @ render_directive (Listen n) @ (render_items its @ ?rest))"
      by (simp only: render_items_Cons)
    also have "\<dots> = findall match_server_name (render_items its @ ?rest)"
      using sp by (rule findall_names_port)
    finally have "first_split (findall match_server_name
                    (render_items ((sep, Listen n) # its) @ ?rest))
                    = first_names (map snd its)"
      by (simp only: ih)
    then show ?thesis by (simp only: it Listen list.map snd_conv first_names.simps)
  next
    case (ServerName ns)
    with ok have nok: "ns \<noteq> []" "\<forall>n\<in>set ns. name_ok n" by simp_all
    have "findall match_server_name (render_items ((sep, ServerName ns) # its) @ ?rest)
            = findall match_server_name
                (sep @ render_directive (ServerName ns) @ (render_items its @ ?rest))"
      by (simp only: render_items_Cons)
    then have "first_split (findall match_server_name
                 (render_items ((sep, ServerName ns) # its) @ ?rest))
                 = ns"
      by (simp only: first_split_names [OF nok sp])
    then show ?thesis by (simp only: it ServerName list.map snd_conv first_names.simps)
  qed
qed

lemma names_of_body:
  assumes "block_shaped b"
  shows "first_split (findall match_server_name (render_body b)) = first_names (map snd (items b))"
proof -
  from assms have its: "\<forall>(sep, d)\<in>set (items b). all_space sep \<and> names_ok d"
    and cl: "all_space (closing b)" and tr: "all_space (trailer b)"
    by (simp_all add: block_shaped_def)
  from names_of_items [OF cl tr its] show ?thesis by (simp only: render_body_def)
qed

lemma parse_block_body:
  assumes "block_shaped b"
  shows "parse_block (render_body b) =
           (case py_ints (map str_nat (listen_numbers (map snd (items b)))) of
              Inl msg \<Rightarrow> Inl msg
            | Inr vs \<Rightarrow> Inr \<lparr>ports = vs, server_names = first_names (map snd (items b))\<rparr>)"
  using listen_of_body [OF assms] names_of_body [OF assms]
  by (simp add: parse_block_def first_split_def Let_def split: sum.splits)







lemma block_of_shaped: "\<forall>d\<in>set ds. names_ok d \<Longrightarrow> block_shaped (block_of ds)"
  by (auto simp: block_shaped_def block_of_def all_space_def is_space_def)

lemma parse_text_one_block:
  assumes "\<forall>d\<in>set ds. names_ok d"
  shows "parse_text (render_config [] [block_of ds]) =
           (case py_ints (map str_nat (listen_numbers ds)) of
              Inl msg \<Rightarrow> Inl msg
            | Inr vs \<Rightarrow> Inr [\<lparr>ports = vs, server_names = first_names ds\<rparr>])"
proof -
  have sh: "block_shaped (block_of ds)" using assms by (rule block_of_shaped)
  have its: "map snd (items (block_of ds)) = ds" by (simp add: block_of_def comp_def)
  have "tl (re_split match_open [] (render_config [] [block_of ds])) = [render_body (block_of ds)]"
    using blocks_of_config [of "[]" "[block_of ds]"] sh by simp
  then show ?thesis
    using parse_block_body [OF sh] its by (simp add: parse_text_def split: sum.splits)
qed

section \<open>Evaluation on concrete texts\<close>

lemmas parse_eval = parse_text_def parse_block_def match_open_def match_listen_def
  match_server_name_def Let_def is_space_def is_digit_def py_split_def int_of_digits_def
  digit_val_def py_int_def max_str_digits_def

lemma parse_text_empty: "parse_text [] = Inr []"
  by (simp add: parse_text_def)

lemma parse_text_four:
  "parse_text ''server{server{server{server{''
     = Inr [\<lparr>ports = [], server_names = []\<rparr>, \<lparr>ports = [], server_names = []\<rparr>,
            \<lparr>ports = [], server_names = []\<rparr>, \<lparr>ports = [], server_names = []\<rparr>]"
  by (simp add: parse_eval)

lemma parse_text_bad_port:
  "parse_text ''server { listen abc; }'' = Inr [\<lparr>ports = [], server_names = []\<rparr>]"
  by (simp add: parse_eval)



lemma parse_text_two:
  "parse_text ''server { listen 8080; server_name a; } server { listen 8080; server_name b; }''
     = Inr [\<lparr>ports = [8080], server_names = [''a'']\<rparr>,
            \<lparr>ports = [8080], server_names = [''b'']\<rparr>]"
  by (simp add: parse_eval)

lemma fits_small: "fits 8081"
  by (simp add: fits_def max_str_digits_def str_nat.simps)

lemma parse_text_over_limit:
  "\<exists>msg. parse_text (render_config [] [block_of [Listen over_limit]]) = Inl msg"
proof -
  obtain msg where "py_int (str_nat over_limit) = Inl msg"
    using py_int_long [OF over_limit_long] by blast
  then show ?thesis
    using parse_text_one_block [of "[Listen over_limit]"] by simp
qed

lemma parse_text_below_limit:
  "parse_text (render_config [] [block_of [Listen (over_limit - 1)]])
     = Inr [\<lparr>ports = [int (over_limit - 1)], server_names = []\<rparr>]"
  using parse_text_one_block [of "[Listen (over_limit - 1)]"]
    py_int_short [OF below_limit_short]
  by (simp add: int_of_digits_str_nat)

lemma listen_groups_Inl:
  "(\<exists>msg. parse_text c = Inl msg) = (\<exists>g\<in>set (listen_groups c). max_str_digits < length g)"
proof
  assume "\<exists>msg. parse_text c = Inl msg"
  then have "\<not> (\<exists>servers. parse_text c = Inr servers)" by auto
  then have "\<not> (\<forall>g\<in>set (listen_groups c). length g \<le> max_str_digits)"
    using parse_text_short by blast
  then show "\<exists>g\<in>set (listen_groups c). max_str_digits < length g" by (simp add: not_le)
next
  assume "\<exists>g\<in>set (listen_groups c). max_str_digits < length g"
  then obtain g where "g \<in> set (listen_groups c)" and "\<not> length g \<le> max_str_digits" by auto
  then show "\<exists>msg. parse_text c = Inl msg" by (rule parse_text_long)
qed

lemma main_effect_raise:
  assumes "read_file e CONFIG_FILE_PATH = Content c"
    and "parse_text c = Inr [\<lparr>ports = [port], server_names = ns\<rparr>]"
    and "\<not> fits (port + 1)"
  shows "fst (main e w) = 1"
    and "executed (snd (main e w)) = executed w @ map (\<lambda>c. (c, 30)) prepare_cmds"
proof -
  let ?servers = "[\<lparr>ports = [port], server_names = ns\<rparr>]"
  let ?w1 = "log_msg INFO (''Found '' @ str_nat (length ?servers) @ '' server blocks with ports: ''
                @ repr_list (repr_list str_int) (map ports ?servers))
              (log_msg INFO (''Starting tests with config file: '' @ CONFIG_FILE_PATH) w)"
  let ?w2 = "prepare_test_files e ?w1"
  obtain msg w3 where r: "run_port e port ?w2 = (Some msg, w3)"
    using run_port_raise(1) [OF assms(3), of e ?w2] by (cases "run_port e port ?w2") auto
  have e3: "executed w3 = executed w @ map (\<lambda>c. (c, 30)) prepare_cmds"
    using run_port_raise(2) [OF assms(3), of e ?w2] r
    by (simp add: prepare_test_files_effect executed_log_msg)
  have m: "main e w = (1, w3)"
    using assms(1,2) r by (simp add: main_def parse_config_def)
  show "fst (main e w) = 1" using m by simp
  show "executed (snd (main e w)) = executed w @ map (\<lambda>c. (c, 30)) prepare_cmds"
    using m e3 by simp
qed

lemma read_file_fixed: "read_file (fixed_env r outcome) path = r"
  by (simp add: fixed_env_def)

lemma shell_fixed: "shell (fixed_env r outcome) history cmd t = outcome"
  by (simp add: fixed_env_def)

lemma multi_ip_inj: "multi_ip i = multi_ip j \<Longrightarrow> i = j"
  using str_nat_inj [of "i + 1" "j + 1"] by (simp add: multi_ip_def)


lemma run_command_result:
  "fst (run_command e c chk t w) =
     (case shell e (executed w) c t of
        Inr result \<Rightarrow>
          if chk \<and> returncode result \<noteq> 0 then (False, stderr result) else (True, stdout result)
      | Inl TimeoutExpired \<Rightarrow> (False, ''Timeout'')
      | Inl (OtherError msg) \<Rightarrow> (False, msg))"
  by (simp add: run_command_def Let_def split: sum.splits exn.splits)

lemma run_stress_tests_logged:
  assumes "shell e (executed w) (stress_cmd port) default_timeout = Inr result"
  shows "logged (run_stress_tests e port w) =
           logged w @ [(INFO, ''Running stress tests on port '' @ str_int port @ ''...''),
                       (INFO, report ''Stress GET'' True (stdout result))]"
  using assms
  by (simp add: run_stress_tests_def stress_tests_def run_command_def Let_def log_msg_def)

lemma executed_run_stress_tests:
  "executed (run_stress_tests e port w) = executed w @ [(stress_cmd port, default_timeout)]"
proof -
  have "executed (run_stress_tests e port w)
          = executed w @ with_timeout default_timeout (stress_tests port)"
    by (simp add: run_stress_tests_def executed_run_tests executed_log_msg)
  then show ?thesis by (simp add: with_timeout_def stress_tests_def)
qed

section \<open>The claims\<close>



text \<open>
  C2, as the code has it. The flag a call returns is true exactly when the call leaves by
  the success branch. The stress category calls with \<^verbatim>\<open>check=False\<close>, so a stress
  command that completes is logged as \<^verbatim>\<open>PASS\<close> with its standard output whatever its exit
  status, and its classification is success. The exit status of the run does not depend on
  the outcome of any command.
\<close>

theorem succeeded_iff_success:
  "fst (fst (run_command e c chk t w)) = (classification chk (shell e (executed w) c t) = Success)
   \<and> (shell e (executed w) (stress_cmd port) default_timeout = Inr result \<longrightarrow>
        classification False (shell e (executed w) (stress_cmd port) default_timeout) = Success
        \<and> logged (run_stress_tests e port w) =
            logged w @ [(INFO, ''Running stress tests on port '' @ str_int port @ ''...''),
                        (INFO, report ''Stress GET'' True (stdout result))])
   \<and> fst (main (e\<lparr>shell := sh\<rparr>) w) = fst (main e w)"
proof -
  have "fst (fst (run_command e c chk t w))
          = (classification chk (shell e (executed w) c t) = Success)"
    by (simp add: run_command_result classification_def split: sum.splits exn.splits)
  moreover have "fst (main (e\<lparr>shell := sh\<rparr>) w) = fst (main e w)"
    by (simp add: main_status)
  ultimately show ?thesis
    by (simp add: run_stress_tests_logged classification_def)
qed

theorem succeeded_iff_success_witness:
  "classification False (exit_with 1) = Success
   \<and> logged (run_stress_tests (fixed_env FileNotFound (exit_with 1)) 8080 empty_world) =
       [(INFO, ''Running stress tests on port '' @ str_int 8080 @ ''...''),
        (INFO, report ''Stress GET'' True ''out'')]"
  using succeeded_iff_success
    [of "fixed_env FileNotFound (exit_with 1)" "[]" True 0 empty_world 8080
        "\<lparr>returncode = 1, stdout = ''out'', stderr = ''err''\<rparr>"]
  by (simp add: shell_fixed exit_with_def empty_world_def)

text \<open>
  C2 as stated fails: a stress scenario whose command exits with status 1 is not classified
  as a failure, and the record the harness keeps of it, its log line, says \<^verbatim>\<open>PASS\<close>.
\<close>

theorem stress_nonzero_exit_counterexample:
  "\<not> (classification False
         (shell (fixed_env FileNotFound (exit_with 1)) [] (stress_cmd 8080) default_timeout)
        = Failure)
   \<and> \<not> fst (fst (run_command (fixed_env FileNotFound (exit_with 1)) (stress_cmd 8080) False
                   default_timeout empty_world))
        = False
   \<and> (INFO, report ''Stress GET'' True ''out'')
       \<in> set (logged (run_stress_tests (fixed_env FileNotFound (exit_with 1)) 8080 empty_world))"
proof -
  have "shell (fixed_env FileNotFound (exit_with 1)) (executed empty_world) (stress_cmd 8080)
          default_timeout = Inr \<lparr>returncode = 1, stdout = ''out'', stderr = ''err''\<rparr>"
    by (simp add: shell_fixed exit_with_def)
  from run_stress_tests_logged [OF this]
  have "(INFO, report ''Stress GET'' True ''out'')
          \<in> set (logged (run_stress_tests (fixed_env FileNotFound (exit_with 1)) 8080 empty_world))"
    by simp
  then show ?thesis
    by (simp add: run_command_result shell_fixed exit_with_def classification_def)
qed

text \<open>
  C3. Whatever \<^verbatim>\<open>subprocess.run\<close> does, \<^verbatim>\<open>run_command\<close> returns a pair to its caller: a
  timeout gives \<open>(False, ''Timeout'')\<close>, any other exception gives \<open>False\<close> with the
  message of the exception, and the loop over a table of tests issues every command of the
  table, in order, whatever the outcomes.
\<close>

theorem run_command_contains_failures:
  "(shell e (executed w) c t = Inl TimeoutExpired \<longrightarrow>
      fst (run_command e c chk t w) = (False, ''Timeout'')
      \<and> classification chk (shell e (executed w) c t) = Timeout)
   \<and> (shell e (executed w) c t = Inl (OtherError msg) \<longrightarrow>
      fst (run_command e c chk t w) = (False, msg)
      \<and> classification chk (shell e (executed w) c t) = ExecutionError)
   \<and> executed (snd (run_command e c chk t w)) = executed w @ [(c, t)]
   \<and> map fst (executed (run_tests e chk tests w)) = map fst (executed w) @ map fst tests"
proof -
  have "map fst (with_timeout default_timeout tests) = map fst tests"
    by (induction tests) (auto simp: with_timeout_def)
  then show ?thesis
    by (simp add: run_command_result executed_run_command executed_run_tests classification_def)
qed

theorem run_command_contains_failures_witness:
  "fst (run_command (fixed_env FileNotFound (Inl TimeoutExpired)) ''sleep 99'' True 30 empty_world)
     = (False, ''Timeout'')
   \<and> fst (run_command (fixed_env FileNotFound (Inl (OtherError ''no shell''))) ''ls'' True 30
            empty_world)
     = (False, ''no shell'')
   \<and> map fst (executed (run_tests (fixed_env FileNotFound (Inl TimeoutExpired)) True
                          [(''a'', ''first''), (''b'', ''second'')] empty_world))
     = [''a'', ''b'']"
  using run_command_contains_failures
      [of "fixed_env FileNotFound (Inl TimeoutExpired)" empty_world "''sleep 99''" 30
          True "''x''" "[(''a'', ''first''), (''b'', ''second'')]"]
    run_command_contains_failures
      [of "fixed_env FileNotFound (Inl (OtherError ''no shell''))" empty_world "''ls''" 30
          True "''no shell''" "[]"]
  by (simp add: shell_fixed empty_world_def)

text \<open>
  C4. When the configuration is read and does not yield between 1 and 3 descriptors (their
  number is outside that range, or parsing raised), the run ends with exit status 1 and has
  issued no command, so neither of the two commands that create the fixture files, and has
  written no file.
\<close>

theorem main_rejects_descriptor_count:
  assumes "read_file e CONFIG_FILE_PATH = Content c"
    and "case parse_text c of
           Inl msg \<Rightarrow> True
         | Inr servers \<Rightarrow> \<not> (1 \<le> length servers \<and> length servers \<le> 3)"
  shows "fst (main e w) = 1 \<and> executed (snd (main e w)) = executed w
         \<and> written (snd (main e w)) = written w"
  using main_effect_reject [OF assms] by simp

theorem main_rejects_descriptor_count_witness:
  "fst (main (fixed_env (Content []) (exit_with 0)) empty_world) = 1
   \<and> executed (snd (main (fixed_env (Content []) (exit_with 0)) empty_world)) = []
   \<and> written (snd (main (fixed_env (Content []) (exit_with 0)) empty_world)) = []
   \<and> fst (main (fixed_env (Content ''server{server{server{server{'') (exit_with 0)) empty_world) = 1
   \<and> executed (snd (main (fixed_env (Content ''server{server{server{server{'') (exit_with 0))
                         empty_world)) = []"
  using main_rejects_descriptor_count
      [of "fixed_env (Content []) (exit_with 0)" "[]" empty_world]
    main_rejects_descriptor_count
      [of "fixed_env (Content ''server{server{server{server{'') (exit_with 0)"
          "''server{server{server{server{''" empty_world]
  by (simp add: read_file_fixed parse_text_empty parse_text_four empty_world_def)

text \<open>
  C5, as the code has it. When the configuration loads with one to three descriptors and
  \<^verbatim>\<open>{port+1}\<close> can be formatted for every port (it has at most 4300 digits), the run
  issues, for every environment and so whatever the commands answer, the two fixture
  commands, then for each descriptor in order and each of its ports in order the commands of
  \<open>port_cmds\<close> (basic, CGI, chunked, delete, stress, miscellaneous), then the resolution
  scenarios if and only if there is more than one descriptor; and it exits with status 0.
\<close>

theorem main_runs_schedule:
  assumes "read_file e CONFIG_FILE_PATH = Content c" and "parse_text c = Inr servers"
    and "1 \<le> length servers" and "length servers \<le> 3"
    and "alt_ports_fit servers"
  shows "fst (main e w) = 0
         \<and> executed (snd (main e w)) =
             executed w @ map (\<lambda>c. (c, 30)) prepare_cmds
               @ concat (map (\<lambda>server. concat (map port_cmds (ports server))) servers)
               @ (if 1 < length servers
                  then map (\<lambda>c. (c, 30)) (multi_scenarios 0 servers) else [])"
  using main_effect_ok [OF assms] by (simp add: schedule_def)

theorem main_runs_schedule_witness:
  "executed (snd (main (fixed_env
       (Content ''server { listen 8080; server_name a; } server { listen 8080; server_name b; }'')
       (Inl TimeoutExpired)) empty_world))
     = map (\<lambda>c. (c, 30)) prepare_cmds @ port_cmds 8080 @ port_cmds 8080
         @ [(multi_cmd 0 ''a'' 8080, 30), (multi_cmd 1 ''b'' 8080, 30)]
   \<and> multi_ip 0 \<noteq> multi_ip 1"
proof -
  have "multi_scenarios 0 [\<lparr>ports = [8080], server_names = [''a'']\<rparr>,
                           \<lparr>ports = [8080], server_names = [''b'']\<rparr>]
          = [multi_cmd 0 ''a'' 8080, multi_cmd 1 ''b'' 8080]"
    by (simp add: multi_scenarios_Cons server_scenarios_def multi_scenarios_def)
  moreover have "multi_ip 0 \<noteq> multi_ip 1"
    using multi_ip_inj [of 0 1] by auto
  moreover have "alt_ports_fit [\<lparr>ports = [8080], server_names = [''a'']\<rparr>,
                                \<lparr>ports = [8080], server_names = [''b'']\<rparr>]"
    using fits_small by (simp add: alt_ports_fit_def)
  ultimately show ?thesis
    using main_runs_schedule
      [of "fixed_env
             (Content ''server { listen 8080; server_name a; } server { listen 8080; server_name b; }'')
             (Inl TimeoutExpired)"
          "''server { listen 8080; server_name a; } server { listen 8080; server_name b; }''"
          "[\<lparr>ports = [8080], server_names = [''a'']\<rparr>,
            \<lparr>ports = [8080], server_names = [''b'']\<rparr>]"
          empty_world]
    by (simp add: read_file_fixed parse_text_two empty_world_def)
qed

text \<open>
  C5 as stated fails: the configuration with the one port made of 4300 nines loads, with
  one descriptor, but \<^verbatim>\<open>{port+1}\<close> then has 4301 digits and cannot be formatted: the run
  ends with exit status 1 after the two fixture commands, and no scenario of any category
  is executed for the port.
\<close>

theorem alt_port_overflow_counterexample:
  "fst (parse_config
         (fixed_env (Content (render_config [] [block_of [Listen (over_limit - 1)]]))
            (exit_with 0))
         CONFIG_FILE_PATH empty_world)
     = Inr [\<lparr>ports = [int (over_limit - 1)], server_names = []\<rparr>]
   \<and> fst (main (fixed_env (Content (render_config [] [block_of [Listen (over_limit - 1)]]))
                  (exit_with 0)) empty_world) = 1
   \<and> executed (snd (main (fixed_env (Content (render_config [] [block_of [Listen (over_limit - 1)]]))
                             (exit_with 0)) empty_world))
       = map (\<lambda>c. (c, 30)) prepare_cmds"
proof -
  let ?e = "fixed_env (Content (render_config [] [block_of [Listen (over_limit - 1)]]))
              (exit_with 0)"
  have r: "read_file ?e CONFIG_FILE_PATH
             = Content (render_config [] [block_of [Listen (over_limit - 1)]])"
    by (rule read_file_fixed)
  have "fst (parse_config ?e CONFIG_FILE_PATH empty_world)
          = Inr [\<lparr>ports = [int (over_limit - 1)], server_names = []\<rparr>]"
    by (simp only: parse_config_value r parse_text_below_limit read_result.case sum.case)
  moreover have "fst (main ?e empty_world) = 1"
    using r parse_text_below_limit over_limit_not_fits by (rule main_effect_raise(1))
  moreover have "executed (snd (main ?e empty_world))
                   = executed empty_world @ map (\<lambda>c. (c, 30)) prepare_cmds"
    using r parse_text_below_limit over_limit_not_fits by (rule main_effect_raise(2))
  ultimately show ?thesis by (simp add: empty_world_def)
qed



text \<open>
  C7, as the code has it. The default timeout is 30; the stress scenario is issued with that
  default, not a longer one. The only longer budget is the 60 of the leak check of the
  miscellaneous category.
\<close>

theorem stress_uses_default_timeout:
  "default_timeout = 30
   \<and> executed (run_stress_tests e port w) = executed w @ [(stress_cmd port, default_timeout)]
   \<and> (valgrind_cmd, 60) \<in> set (executed (run_other_tests e port w))"
  by (simp add: executed_run_stress_tests run_other_tests_effect default_timeout_def)

text \<open>C7 as stated fails: the stress scenario of port 8080 is issued with timeout 30.\<close>

theorem stress_timeout_counterexample:
  "\<not> (\<forall>(c, t) \<in> set (executed (run_stress_tests (fixed_env FileNotFound (exit_with 0)) 8080
                             empty_world)).
         default_timeout < t)"
  by (simp add: executed_run_stress_tests empty_world_def)

text \<open>
  C8, as the code has it. A missing file, any other exception of reading the file and any
  exception raised while the text is parsed end the process with status 1 after an error
  is logged. Parsing raises exactly when a \<^verbatim>\<open>listen\<close> directive has more than 4300
  digits, which \<^verbatim>\<open>int\<close> refuses. Otherwise a text that is read is not an error: the
  result is the list of its descriptors, empty when the text has no server block, and a
  directive that does not match, such as a port that is not a number, is left out of its
  descriptor.
\<close>

theorem parse_config_fatal_cases:
  "(read_file e p = FileNotFound \<longrightarrow>
      parse_config e p w = (Inl 1, log_msg ERROR (''Config file not found: '' @ p) w))
   \<and> (read_file e p = ReadError msg \<longrightarrow>
      parse_config e p w = (Inl 1, log_msg ERROR (''Error parsing config file: '' @ msg) w))
   \<and> (read_file e p = Content c \<and> parse_text c = Inl msg \<longrightarrow>
      parse_config e p w = (Inl 1, log_msg ERROR (''Error parsing config file: '' @ msg) w))
   \<and> (read_file e p = Content c \<and> parse_text c = Inr servers \<longrightarrow>
      fst (parse_config e p w) = Inr servers)
   \<and> (\<exists>msg. parse_text c = Inl msg) = (\<exists>g\<in>set (listen_groups c). max_str_digits < length g)
   \<and> parse_text [] = Inr []
   \<and> parse_text ''server { listen abc; }'' = Inr [\<lparr>ports = [], server_names = []\<rparr>]"
  using listen_groups_Inl [of c]
  by (simp add: parse_config_def parse_text_empty parse_text_bad_port)

theorem parse_config_fatal_cases_witness:
  "fst (parse_config (fixed_env FileNotFound (exit_with 0)) ''x.conf'' empty_world) = Inl 1
   \<and> fst (parse_config (fixed_env (ReadError ''denied'') (exit_with 0)) ''x.conf'' empty_world)
       = Inl 1
   \<and> fst (parse_config
            (fixed_env (Content (render_config [] [block_of [Listen over_limit]])) (exit_with 0))
            ''x.conf'' empty_world)
       = Inl 1
   \<and> fst (parse_config (fixed_env (Content []) (exit_with 0)) ''x.conf'' empty_world) = Inr []"
proof -
  obtain m where m: "parse_text (render_config [] [block_of [Listen over_limit]]) = Inl m"
    using parse_text_over_limit by blast
  show ?thesis
    using parse_config_fatal_cases
        [of "fixed_env FileNotFound (exit_with 0)" "''x.conf''" empty_world "''denied''" "[]" "[]"]
      parse_config_fatal_cases
        [of "fixed_env (ReadError ''denied'') (exit_with 0)" "''x.conf''" empty_world "''denied''"
            "[]" "[]"]
      parse_config_fatal_cases
        [of "fixed_env (Content (render_config [] [block_of [Listen over_limit]])) (exit_with 0)"
            "''x.conf''" empty_world m "render_config [] [block_of [Listen over_limit]]" "[]"]
      parse_config_fatal_cases
        [of "fixed_env (Content []) (exit_with 0)" "''x.conf''" empty_world "''denied''" "[]" "[]"]
    by (simp add: read_file_fixed m parse_text_empty)
qed

text \<open>
  C8 as stated fails: a configuration whose port is not a number is loaded without any
  error; the directive is skipped.
\<close>

theorem non_numeric_port_counterexample:
  "fst (parse_config (fixed_env (Content ''server { listen abc; }'') (exit_with 0))
          CONFIG_FILE_PATH empty_world)
     = Inr [\<lparr>ports = [], server_names = []\<rparr>]"
  by (simp add: parse_config_value read_file_fixed parse_text_bad_port)

text \<open>
  C9, on the code: the miscellaneous category of port 8080 writes no file, and the first
  command it issues runs \<^verbatim>\<open>read_err.py\<close>.
\<close>

theorem read_err_script_not_created:
  "create_read_err_script empty_world = empty_world
   \<and> written (run_other_tests e 8080 empty_world) = []
   \<and> hd (executed (run_other_tests e 8080 empty_world)) = (''python3 read_err.py'', 30)"
  by (simp add: run_other_tests_effect create_read_err_script_def empty_world_def
      read_err_cmd_def default_timeout_def)




end
